theory Spec2Isabelle
  imports Main "HOL-Library.Sublist"
begin

section \<open>Data model\<close>

text \<open>
  The scripts of \<^verbatim>\<open>vn_generator.py\<close> are JSON-like dictionaries. A key that the code
  tests with \<^verbatim>\<open>"k" in d\<close> or reads with \<^verbatim>\<open>d.get("k")\<close> is an optional field; a key
  that it reads with \<^verbatim>\<open>d["k"]\<close> is a plain field (the data model of the specification
  declares it). The \<^verbatim>\<open>"id"\<close> of a scene is the field \<open>sid\<close>, the \<^verbatim>\<open>"text"\<close> of a choice
  and of a dialogue entry are \<open>c_text\<close> and \<open>d_text\<close>.
\<close>

datatype error = KeyError | IndexError | StopIteration | AttributeError | TypeError

record choice =
  c_text :: string
  nextScene :: "string option"

record dialogue_entry =
  speaker :: string
  d_text :: string
  character :: "string option"
  choices :: "choice list option"

record scene_character =
  ch_id :: string
  image :: string

record scene =
  sid :: string
  background :: string
  characters :: "scene_character list"
  dialogue :: "dialogue_entry list"
  generated_with :: "string option"

record script =
  title :: string
  scenes :: "scene list"

section \<open>Graph Validator and Repairer\<close>

text \<open>
  A reference is the dictionary \<^verbatim>\<open>{"source_scene", "choice_text", "next_scene"}\<close> that
  \<^verbatim>\<open>validate_and_fix_scene_connections\<close> collects for every choice carrying a
  \<^verbatim>\<open>nextScene\<close>.
\<close>

record ref =
  source_scene :: string
  choice_text :: string
  next_scene :: string

definition choice_refs :: "string \<Rightarrow> choice \<Rightarrow> ref list" where
  "choice_refs s c =
     (case nextScene c of
        None \<Rightarrow> []
      | Some n \<Rightarrow> [\<lparr>source_scene = s, choice_text = c_text c, next_scene = n\<rparr>])"

definition dialogue_refs :: "string \<Rightarrow> dialogue_entry \<Rightarrow> ref list" where
  "dialogue_refs s d =
     (case choices d of
        None \<Rightarrow> []
      | Some cs \<Rightarrow> concat (map (choice_refs s) cs))"

definition scene_refs :: "scene \<Rightarrow> ref list" where
  "scene_refs sc = concat (map (dialogue_refs (sid sc)) (dialogue sc))"

definition next_scene_refs :: "scene list \<Rightarrow> ref list" where
  "next_scene_refs scs = concat (map scene_refs scs)"

text \<open>Python's \<^verbatim>\<open>a in b\<close> on strings: \<open>a\<close> occurs in \<open>b\<close> as a contiguous block.\<close>

fun str_in :: "string \<Rightarrow> string \<Rightarrow> bool" where
  "str_in a [] = (a = [])"
| "str_in a (y # ys) = (prefix a (y # ys) \<or> str_in a ys)"

definition is_invalid :: "string list \<Rightarrow> ref \<Rightarrow> bool" where
  "is_invalid scene_ids r \<longleftrightarrow> next_scene r \<notin> set scene_ids \<and> next_scene r \<noteq> ''exit''"

definition similar_ids :: "string list \<Rightarrow> ref \<Rightarrow> string list" where
  "similar_ids scene_ids r =
     filter (\<lambda>s. str_in (next_scene r) s \<or> str_in s (next_scene r)) scene_ids"

definition matches :: "ref \<Rightarrow> choice \<Rightarrow> bool" where
  "matches r c \<longleftrightarrow> c_text c = choice_text r \<and> nextScene c = Some (next_scene r)"

definition fix_choice :: "ref \<Rightarrow> string \<Rightarrow> choice \<Rightarrow> choice" where
  "fix_choice r new c = (if matches r c then c\<lparr>nextScene := Some new\<rparr> else c)"

definition fix_dialogue :: "ref \<Rightarrow> string \<Rightarrow> dialogue_entry \<Rightarrow> dialogue_entry" where
  "fix_dialogue r new d =
     (case choices d of
        None \<Rightarrow> d
      | Some cs \<Rightarrow> d\<lparr>choices := Some (map (fix_choice r new) cs)\<rparr>)"

definition fix_scene :: "ref \<Rightarrow> string \<Rightarrow> scene \<Rightarrow> scene" where
  "fix_scene r new sc =
     (if sid sc = source_scene r
      then sc\<lparr>dialogue := map (fix_dialogue r new) (dialogue sc)\<rparr>
      else sc)"

definition has_match :: "ref \<Rightarrow> scene list \<Rightarrow> bool" where
  "has_match r scs \<longleftrightarrow>
     (\<exists>sc \<in> set scs. sid sc = source_scene r \<and>
        (\<exists>d \<in> set (dialogue sc).
           case choices d of None \<Rightarrow> False | Some cs \<Rightarrow> \<exists>c \<in> set cs. matches r c))"

text \<open>
  One round of the loop \<^verbatim>\<open>for ref in invalid_refs\<close>. The replacement is
  \<^verbatim>\<open>similar_ids[0]\<close>, or \<^verbatim>\<open>list(scene_ids)[0]\<close> when no id is similar; the latter is
  evaluated only at a matching choice and raises on an empty set.
\<close>

definition fix_reference :: "string list \<Rightarrow> ref \<Rightarrow> scene list \<Rightarrow> error + scene list" where
  "fix_reference scene_ids r scs =
     (case similar_ids scene_ids r of
        s # _ \<Rightarrow> Inr (map (fix_scene r s) scs)
      | [] \<Rightarrow>
          (case scene_ids of
             i # _ \<Rightarrow> Inr (map (fix_scene r i) scs)
           | [] \<Rightarrow> if has_match r scs then Inl IndexError else Inr scs))"

fun fix_invalid_refs :: "string list \<Rightarrow> ref list \<Rightarrow> scene list \<Rightarrow> error + scene list" where
  "fix_invalid_refs scene_ids [] scs = Inr scs"
| "fix_invalid_refs scene_ids (r # rs) scs =
     (case fix_reference scene_ids r scs of
        Inl e \<Rightarrow> Inl e
      | Inr scs' \<Rightarrow> fix_invalid_refs scene_ids rs scs')"

text \<open>
  The start of the reachability pass: the set \<^verbatim>\<open>{"scene_intro", "scene_1"}\<close>, or the
  first scene id in iteration order when neither is a scene; \<^verbatim>\<open>next(iter(scene_ids))\<close>
  raises on the empty set.
\<close>

definition initial_reachable :: "string list \<Rightarrow> error + string list" where
  "initial_reachable scene_ids =
     (if ''scene_intro'' \<in> set scene_ids \<or> ''scene_1'' \<in> set scene_ids
      then Inr [''scene_intro'', ''scene_1'']
      else (case scene_ids of [] \<Rightarrow> Inl StopIteration | i # _ \<Rightarrow> Inr [i]))"

text \<open>
  The set \<^verbatim>\<open>reachable\<close> is a list without repetition; \<^verbatim>\<open>reachable.add\<close> is
  \<^const>\<open>List.insert\<close>. One sweep over the references, then the \<^verbatim>\<open>while\<close> loop with
  its \<^verbatim>\<open>old_size\<close>.
\<close>

definition expand_step :: "ref \<Rightarrow> string list \<Rightarrow> string list" where
  "expand_step r reachable =
     (if source_scene r \<in> set reachable \<and> next_scene r \<noteq> ''exit''
      then List.insert (next_scene r) reachable
      else reachable)"

definition expand_pass :: "ref list \<Rightarrow> string list \<Rightarrow> string list" where
  "expand_pass refs reachable = fold expand_step refs reachable"

function reach_loop :: "ref list \<Rightarrow> string list \<Rightarrow> nat \<Rightarrow> string list" where
  "reach_loop refs reachable old_size =
     (if length reachable > old_size
      then reach_loop refs (expand_pass refs reachable) (length reachable)
      else reachable)"
  by pat_completeness auto

lemma expand_step_cases:
  "expand_step r R = R \<or> (expand_step r R = next_scene r # R \<and> next_scene r \<notin> set R)"
  by (simp add: expand_step_def List.insert_def)

lemma expand_pass_grows:
  "expand_pass refs R = R \<or>
   (set R \<subset> set (expand_pass refs R) \<and> length R < length (expand_pass refs R))"
  unfolding expand_pass_def
proof (induction refs arbitrary: R)
  case Nil
  show ?case by simp
next
  case (Cons r refs)
  from expand_step_cases [of r R] show ?case
  proof
    assume "expand_step r R = R"
    with Cons.IH [of R] show ?thesis by simp
  next
    assume new: "expand_step r R = next_scene r # R \<and> next_scene r \<notin> set R"
    from Cons.IH [of "next_scene r # R"]
    have "set (next_scene r # R) \<subseteq> set (fold expand_step refs (next_scene r # R)) \<and>
          length (next_scene r # R) \<le> length (fold expand_step refs (next_scene r # R))"
      by auto
    with new show ?thesis by auto
  qed
qed

lemma expand_pass_bound:
  "set (expand_pass refs R) \<subseteq> set R \<union> next_scene ` set refs"
  unfolding expand_pass_def
proof (induction refs arbitrary: R)
  case Nil
  show ?case by simp
next
  case (Cons r refs)
  have "set (expand_step r R) \<subseteq> set R \<union> {next_scene r}"
    using expand_step_cases [of r R] by auto
  with Cons.IH [of "expand_step r R"] show ?case by auto
qed

termination reach_loop
proof (relation "measure (\<lambda>(refs, R, old).
          2 * card (next_scene ` set refs - set R) + (if length R > old then 1 else 0))")
  show "wf (measure (\<lambda>(refs, R, old).
          2 * card (next_scene ` set refs - set R) + (if length R > old then 1 else 0)))"
    by simp
next
  fix refs :: "ref list" and reachable :: "string list" and old_size :: nat
  assume gt: "old_size < length reachable"
  let ?T = "next_scene ` set refs"
  let ?R' = "expand_pass refs reachable"
  from expand_pass_grows [of refs reachable]
  have "2 * card (?T - set ?R') + (if length ?R' > length reachable then 1 else 0)
        < 2 * card (?T - set reachable) + 1"
  proof
    assume "?R' = reachable"
    then show ?thesis by simp
  next
    assume grow: "set reachable \<subset> set ?R' \<and> length reachable < length ?R'"
    then obtain x where x: "x \<in> set ?R'" "x \<notin> set reachable" by blast
    with expand_pass_bound [of refs reachable] have xT: "x \<in> ?T" by blast
    have "?T - set ?R' \<subset> ?T - set reachable"
      using grow x xT by blast
    then have "card (?T - set ?R') < card (?T - set reachable)"
      by (intro psubset_card_mono) auto
    then show ?thesis by simp
  qed
  with gt show "((refs, ?R', length reachable), (refs, reachable, old_size))
        \<in> measure (\<lambda>(refs, R, old).
          2 * card (next_scene ` set refs - set R) + (if length R > old then 1 else 0))"
    by simp
qed

declare reach_loop.simps [simp del]

text \<open>
  The repair of one unreachable scene: the new choice goes to the last dialogue entry
  of the source scene that carries a \<^verbatim>\<open>choices\<close> list (the loop over
  \<^verbatim>\<open>reversed(scene["dialogue"])\<close> with its \<^verbatim>\<open>break\<close>); a scene with no such entry is
  left as it is.
\<close>

fun append_choice :: "dialogue_entry list \<Rightarrow> choice \<Rightarrow> dialogue_entry list" where
  "append_choice [] c = []"
| "append_choice (d # ds) c =
     (case choices d of
        Some cs \<Rightarrow> d\<lparr>choices := Some (cs @ [c])\<rparr> # ds
      | None \<Rightarrow> d # append_choice ds c)"

definition connect_scene :: "string \<Rightarrow> string \<Rightarrow> scene \<Rightarrow> scene" where
  "connect_scene source_scene_id scene_id sc =
     (if sid sc = source_scene_id
      then sc\<lparr>dialogue := rev (append_choice (rev (dialogue sc))
             \<lparr>c_text = ''Explore a different path'', nextScene = Some scene_id\<rparr>)\<rparr>
      else sc)"

text \<open>
  \<^verbatim>\<open>random.choice(seq)\<close> returns \<open>seq[k]\<close> for a random index \<open>k\<close> below the length,
  and raises on an empty sequence. The draw made for the unreachable scene \<open>u\<close> is
  \<open>rnd u\<close>, reduced below the length.
\<close>

definition random_choice :: "nat \<Rightarrow> 'a list \<Rightarrow> error + 'a" where
  "random_choice k xs = (if xs = [] then Inl IndexError else Inr (xs ! (k mod length xs)))"

fun connect_unreachable ::
  "string list \<Rightarrow> (string \<Rightarrow> nat) \<Rightarrow> string list \<Rightarrow> scene list \<Rightarrow> error + scene list" where
  "connect_unreachable reachable_list rnd [] scs = Inr scs"
| "connect_unreachable reachable_list rnd (scene_id # us) scs =
     (case random_choice (rnd scene_id) reachable_list of
        Inl e \<Rightarrow> Inl e
      | Inr source_scene_id \<Rightarrow>
          connect_unreachable reachable_list rnd us
            (map (connect_scene source_scene_id scene_id) scs))"

text \<open>
  The whole function. \<open>ord\<close> is the iteration order of Python's sets: it maps the
  elements put into a set to the sequence in which the set yields them. \<open>rnd\<close> gives
  the random draws.
\<close>

definition validate_and_fix_scene_connections ::
  "(string list \<Rightarrow> string list) \<Rightarrow> (string \<Rightarrow> nat) \<Rightarrow> script \<Rightarrow> error + script" where
  "validate_and_fix_scene_connections ord rnd script_data =
     (let scene_ids = ord (map sid (scenes script_data));
          refs = next_scene_refs (scenes script_data);
          invalid_refs = filter (is_invalid scene_ids) refs
      in case fix_invalid_refs scene_ids invalid_refs (scenes script_data) of
           Inl e \<Rightarrow> Inl e
         | Inr fixed \<Rightarrow>
             (case initial_reachable scene_ids of
                Inl e \<Rightarrow> Inl e
              | Inr start \<Rightarrow>
                  (let reachable = reach_loop refs start 0;
                       unreachable = ord (filter (\<lambda>s. s \<notin> set reachable) scene_ids)
                   in case connect_unreachable (ord reachable) rnd unreachable fixed of
                        Inl e \<Rightarrow> Inl e
                      | Inr connected \<Rightarrow> Inr (script_data\<lparr>scenes := connected\<rparr>))))"

text \<open>A set's iteration yields each of its elements once.\<close>

definition set_order :: "(string list \<Rightarrow> string list) \<Rightarrow> bool" where
  "set_order ord \<longleftrightarrow> (\<forall>xs. set (ord xs) = set xs \<and> distinct (ord xs))"

subsection \<open>The choices of a scene, and what each pass does to them\<close>

definition scene_choices :: "scene \<Rightarrow> choice list" where
  "scene_choices sc =
     concat (map (\<lambda>d. case choices d of None \<Rightarrow> [] | Some cs \<Rightarrow> cs) (dialogue sc))"

lemma scene_choices_iff:
  "c \<in> set (scene_choices sc) \<longleftrightarrow>
     (\<exists>d \<in> set (dialogue sc). \<exists>cs. choices d = Some cs \<and> c \<in> set cs)"
  unfolding scene_choices_def
  by (auto split: option.splits) (metis option.simps(5) | force)+

lemma scene_refs_choices:
  "scene_refs sc = concat (map (choice_refs (sid sc)) (scene_choices sc))"
proof -
  have "concat (map (dialogue_refs s) ds) =
        concat (map (choice_refs s)
          (concat (map (\<lambda>d. case choices d of None \<Rightarrow> [] | Some cs \<Rightarrow> cs) ds)))" for s ds
    by (induction ds) (auto simp: dialogue_refs_def split: option.splits)
  then show ?thesis by (simp add: scene_refs_def scene_choices_def)
qed

lemma ref_in_next_scene_refs:
  assumes "sc \<in> set scs" "c \<in> set (scene_choices sc)" "nextScene c = Some n"
  shows "\<lparr>source_scene = sid sc, choice_text = c_text c, next_scene = n\<rparr>
           \<in> set (next_scene_refs scs)"
  using assms unfolding next_scene_refs_def scene_refs_choices choice_refs_def
  by (auto intro!: bexI [of _ sc] bexI [of _ c])

lemma next_scene_refs_source:
  "r \<in> set (next_scene_refs scs) \<Longrightarrow>
     \<exists>sc \<in> set scs. \<exists>c \<in> set (scene_choices sc).
        source_scene r = sid sc \<and> nextScene c = Some (next_scene r) \<and> choice_text r = c_text c"
  unfolding next_scene_refs_def scene_refs_choices choice_refs_def
  by (auto split: option.splits) (metis)

lemma sid_fix_scene [simp]: "sid (fix_scene r new sc) = sid sc"
  by (simp add: fix_scene_def)

lemma scene_choices_fix_scene:
  "scene_choices (fix_scene r new sc) =
     (if sid sc = source_scene r then map (fix_choice r new) (scene_choices sc)
      else scene_choices sc)"
proof -
  have "concat (map (\<lambda>d. case choices d of None \<Rightarrow> [] | Some cs \<Rightarrow> cs)
              (map (fix_dialogue r new) ds)) =
        map (fix_choice r new)
          (concat (map (\<lambda>d. case choices d of None \<Rightarrow> [] | Some cs \<Rightarrow> cs) ds))" for ds
    by (induction ds) (auto simp: fix_dialogue_def split: option.splits)
  then show ?thesis by (simp add: fix_scene_def scene_choices_def)
qed

lemma sid_connect_scene [simp]: "sid (connect_scene s u sc) = sid sc"
  by (simp add: connect_scene_def)

lemma append_choice_choices:
  "set (concat (map (\<lambda>d. case choices d of None \<Rightarrow> [] | Some cs \<Rightarrow> cs) (append_choice ds c)))
     = set (concat (map (\<lambda>d. case choices d of None \<Rightarrow> [] | Some cs \<Rightarrow> cs) ds))
         \<union> (if \<exists>d \<in> set ds. choices d \<noteq> None then {c} else {})"
  by (induction ds) (auto split: option.splits)

lemma scene_choices_connect_scene:
  "set (scene_choices (connect_scene s u sc)) =
     set (scene_choices sc) \<union>
       (if sid sc = s \<and> (\<exists>d \<in> set (dialogue sc). choices d \<noteq> None)
        then {\<lparr>c_text = ''Explore a different path'', nextScene = Some u\<rparr>} else {})"
proof -
  have "set (concat (map (\<lambda>d. case choices d of None \<Rightarrow> [] | Some cs \<Rightarrow> cs) (rev ds))) =
        set (concat (map (\<lambda>d. case choices d of None \<Rightarrow> [] | Some cs \<Rightarrow> cs) ds))" for ds
    by (induction ds) auto
  from this [of "append_choice (rev (dialogue sc)) c" for c] this [of "dialogue sc"]
  show ?thesis
    by (simp add: connect_scene_def scene_choices_def append_choice_choices del: set_concat)
qed

subsection \<open>No dangling references\<close>

definition dangling :: "string set \<Rightarrow> choice \<Rightarrow> bool" where
  "dangling I c \<longleftrightarrow> (case nextScene c of None \<Rightarrow> False | Some n \<Rightarrow> n \<notin> I \<and> n \<noteq> ''exit'')"

definition no_dangling :: "script \<Rightarrow> bool" where
  "no_dangling script_data \<longleftrightarrow>
     (\<forall>sc \<in> set (scenes script_data). \<forall>c \<in> set (scene_choices sc).
        \<not> dangling (sid ` set (scenes script_data)) c)"

lemma fix_reference_result:
  assumes "set ids = sid ` set scs"
  shows "\<exists>new. (scs = [] \<or> new \<in> set ids) \<and> fix_reference ids r scs = Inr (map (fix_scene r new) scs)"
proof (cases "similar_ids ids r")
  case (Cons s ss)
  then have "s \<in> set (similar_ids ids r)" by simp
  then have "s \<in> set ids" by (simp add: similar_ids_def)
  with Cons show ?thesis by (auto simp: fix_reference_def)
next
  case Nil
  show ?thesis
  proof (cases ids)
    case (Cons i rest)
    with Nil show ?thesis by (auto simp: fix_reference_def)
  next
    case emp: Nil
    with assms have "scs = []" by simp
    with Nil emp show ?thesis by (simp add: fix_reference_def has_match_def)
  qed
qed

lemma fix_choice_not_dangling:
  assumes "new \<in> I" "dangling I (fix_choice r new c)"
  shows "\<not> matches r c \<and> fix_choice r new c = c"
  using assms by (auto simp: fix_choice_def dangling_def)

lemma fix_invalid_refs_ok:
  assumes "set ids = sid ` set scs"
    and "\<forall>sc \<in> set scs. \<forall>c \<in> set (scene_choices sc). \<forall>n. nextScene c = Some n \<longrightarrow>
           dangling (set ids) c \<longrightarrow>
           \<lparr>source_scene = sid sc, choice_text = c_text c, next_scene = n\<rparr> \<in> set rs"
  shows "\<exists>scs'. fix_invalid_refs ids rs scs = Inr scs' \<and> map sid scs' = map sid scs \<and>
           (\<forall>sc \<in> set scs'. \<forall>c \<in> set (scene_choices sc). \<not> dangling (set ids) c)"
  using assms
proof (induction rs arbitrary: scs)
  case Nil
  have "\<not> dangling (set ids) c" if "sc \<in> set scs" "c \<in> set (scene_choices sc)" for sc c
  proof
    assume d: "dangling (set ids) c"
    then obtain n where "nextScene c = Some n" by (auto simp: dangling_def split: option.splits)
    with Nil.prems(2) that d show False by auto
  qed
  then show ?case by simp
next
  case (Cons r rs)
  from fix_reference_result [OF Cons.prems(1), of r]
  obtain new where new: "scs = [] \<or> new \<in> set ids"
    and fr: "fix_reference ids r scs = Inr (map (fix_scene r new) scs)" by blast
  let ?scs1 = "map (fix_scene r new) scs"
  have ids1: "set ids = sid ` set ?scs1"
    using Cons.prems(1) by (simp add: image_image)
  have inv1: "\<lparr>source_scene = sid sc1, choice_text = c_text c1, next_scene = n\<rparr> \<in> set rs"
    if sc1: "sc1 \<in> set ?scs1" and c1: "c1 \<in> set (scene_choices sc1)"
      and n: "nextScene c1 = Some n" and d: "dangling (set ids) c1" for sc1 c1 n
  proof -
    from sc1 obtain sc where sc: "sc \<in> set scs" "sc1 = fix_scene r new sc" by auto
    with new have newI: "new \<in> set ids" by auto
    show ?thesis
    proof (cases "sid sc = source_scene r")
      case True
      with c1 sc obtain c where c: "c \<in> set (scene_choices sc)" "c1 = fix_choice r new c"
        by (auto simp: scene_choices_fix_scene)
      from fix_choice_not_dangling [OF newI, of r c] d c
      have nm: "\<not> matches r c" and same: "c1 = c" by auto
      from Cons.prems(2) sc(1) c(1) n d same
      have "\<lparr>source_scene = sid sc, choice_text = c_text c, next_scene = n\<rparr> \<in> set (r # rs)"
        by blast
      moreover have "\<lparr>source_scene = sid sc, choice_text = c_text c, next_scene = n\<rparr> \<noteq> r"
        using nm n same by (auto simp: matches_def)
      ultimately show ?thesis using sc(2) same by simp
    next
      case False
      with c1 sc have c: "c1 \<in> set (scene_choices sc)"
        by (simp add: scene_choices_fix_scene)
      from Cons.prems(2) sc(1) c n d
      have "\<lparr>source_scene = sid sc, choice_text = c_text c1, next_scene = n\<rparr> \<in> set (r # rs)"
        by blast
      moreover have "\<lparr>source_scene = sid sc, choice_text = c_text c1, next_scene = n\<rparr> \<noteq> r"
        using False by auto
      ultimately show ?thesis using sc(2) by simp
    qed
  qed
  from Cons.IH [OF ids1] inv1
  obtain scs' where "fix_invalid_refs ids rs ?scs1 = Inr scs'" "map sid scs' = map sid ?scs1"
    "\<forall>sc \<in> set scs'. \<forall>c \<in> set (scene_choices sc). \<not> dangling (set ids) c"
    by blast
  with fr show ?case by (simp add: comp_def)
qed

lemma connect_unreachable_ok:
  assumes "R \<noteq> []"
  shows "\<exists>scs'. connect_unreachable R rnd us scs = Inr scs' \<and> map sid scs' = map sid scs \<and>
           (\<forall>sc' \<in> set scs'. \<forall>c \<in> set (scene_choices sc').
              (\<exists>sc \<in> set scs. c \<in> set (scene_choices sc)) \<or>
              (\<exists>u \<in> set us. c = \<lparr>c_text = ''Explore a different path'', nextScene = Some u\<rparr>))"
proof (induction us arbitrary: scs)
  case Nil
  show ?case by auto
next
  case (Cons u us)
  from assms obtain s where s: "random_choice (rnd u) R = Inr s"
    by (auto simp: random_choice_def)
  let ?scs1 = "map (connect_scene s u) scs"
  from Cons.IH [of ?scs1]
  obtain scs' where r: "connect_unreachable R rnd us ?scs1 = Inr scs'"
    "map sid scs' = map sid ?scs1"
    and ch: "\<forall>sc' \<in> set scs'. \<forall>c \<in> set (scene_choices sc').
              (\<exists>sc \<in> set ?scs1. c \<in> set (scene_choices sc)) \<or>
              (\<exists>u \<in> set us. c = \<lparr>c_text = ''Explore a different path'', nextScene = Some u\<rparr>)"
    by blast
  have "(\<exists>sc \<in> set scs. c \<in> set (scene_choices sc)) \<or>
        (\<exists>v \<in> set (u # us). c = \<lparr>c_text = ''Explore a different path'', nextScene = Some v\<rparr>)"
    if "sc' \<in> set scs'" "c \<in> set (scene_choices sc')" for sc' c
  proof -
    from ch that consider
      (old) sc1 where "sc1 \<in> set ?scs1" "c \<in> set (scene_choices sc1)"
      | (new) "\<exists>v \<in> set us. c = \<lparr>c_text = ''Explore a different path'', nextScene = Some v\<rparr>"
      by blast
    then show ?thesis
    proof cases
      case old
      then obtain sc where "sc \<in> set scs" "c \<in> set (scene_choices (connect_scene s u sc))"
        by auto
      then show ?thesis
        by (auto simp: scene_choices_connect_scene split: if_splits)
    next
      case new
      then show ?thesis by auto
    qed
  qed
  with r s show ?case by (simp add: comp_def)
qed

lemma reach_loop_start:
  "set start \<subseteq> set (reach_loop refs start k)"
proof (induction refs start k rule: reach_loop.induct)
  case (1 refs reachable old_size)
  show ?case
  proof (cases "old_size < length reachable")
    case True
    from expand_pass_grows [of refs reachable]
    have "set reachable \<subseteq> set (expand_pass refs reachable)" by auto
    with 1 True show ?thesis by (subst reach_loop.simps) auto
  next
    case False
    then show ?thesis by (subst reach_loop.simps) simp
  qed
qed

lemma initial_reachable_ok:
  assumes "ids \<noteq> []"
  shows "\<exists>start. initial_reachable ids = Inr start \<and> start \<noteq> []"
  using assms by (cases ids) (auto simp: initial_reachable_def)

lemma validate_returns:
  assumes ord: "set_order ord" and ne: "scenes script_data \<noteq> []"
  shows "\<exists>fixed start connected.
     fix_invalid_refs (ord (map sid (scenes script_data)))
        (filter (is_invalid (ord (map sid (scenes script_data))))
           (next_scene_refs (scenes script_data))) (scenes script_data) = Inr fixed \<and>
     map sid fixed = map sid (scenes script_data) \<and>
     (\<forall>sc \<in> set fixed. \<forall>c \<in> set (scene_choices sc).
         \<not> dangling (sid ` set (scenes script_data)) c) \<and>
     initial_reachable (ord (map sid (scenes script_data))) = Inr start \<and> start \<noteq> [] \<and>
     connect_unreachable
        (ord (reach_loop (next_scene_refs (scenes script_data)) start 0)) rnd
        (ord (filter (\<lambda>s. s \<notin> set (reach_loop (next_scene_refs (scenes script_data)) start 0))
               (ord (map sid (scenes script_data))))) fixed = Inr connected \<and>
     map sid connected = map sid (scenes script_data) \<and>
     (\<forall>sc' \<in> set connected. \<forall>c \<in> set (scene_choices sc').
         (\<exists>sc \<in> set fixed. c \<in> set (scene_choices sc)) \<or>
         (\<exists>u \<in> sid ` set (scenes script_data).
            c = \<lparr>c_text = ''Explore a different path'', nextScene = Some u\<rparr>)) \<and>
     validate_and_fix_scene_connections ord rnd script_data =
       Inr (script_data\<lparr>scenes := connected\<rparr>)"
proof -
  let ?scs = "scenes script_data"
  let ?ids = "ord (map sid ?scs)"
  let ?refs = "next_scene_refs ?scs"
  from ord have ids: "set ?ids = sid ` set ?scs" by (simp add: set_order_def)
  with ne have idsne: "?ids \<noteq> []" by auto
  have "\<lparr>source_scene = sid sc, choice_text = c_text c, next_scene = n\<rparr>
          \<in> set (filter (is_invalid ?ids) ?refs)"
    if "sc \<in> set ?scs" "c \<in> set (scene_choices sc)" "nextScene c = Some n"
       "dangling (set ?ids) c" for sc c n
    using ref_in_next_scene_refs [OF that(1-3)] that(3,4)
    by (simp add: is_invalid_def dangling_def)
  with fix_invalid_refs_ok [OF ids, of "filter (is_invalid ?ids) ?refs"]
  obtain fixed where fixed: "fix_invalid_refs ?ids (filter (is_invalid ?ids) ?refs) ?scs = Inr fixed"
    "map sid fixed = map sid ?scs"
    "\<forall>sc \<in> set fixed. \<forall>c \<in> set (scene_choices sc). \<not> dangling (set ?ids) c"
    by blast
  from initial_reachable_ok [OF idsne]
  obtain start where start: "initial_reachable ?ids = Inr start" "start \<noteq> []" by blast
  let ?reach = "reach_loop ?refs start 0"
  let ?un = "ord (filter (\<lambda>s. s \<notin> set ?reach) ?ids)"
  from reach_loop_start [of start ?refs 0] start(2) have "set ?reach \<noteq> {}" by auto
  with ord have "ord ?reach \<noteq> []" by (metis set_order_def set_empty)
  from connect_unreachable_ok [OF this, of rnd ?un fixed]
  obtain connected where conn: "connect_unreachable (ord ?reach) rnd ?un fixed = Inr connected"
    "map sid connected = map sid fixed"
    "\<forall>sc' \<in> set connected. \<forall>c \<in> set (scene_choices sc').
       (\<exists>sc \<in> set fixed. c \<in> set (scene_choices sc)) \<or>
       (\<exists>u \<in> set ?un. c = \<lparr>c_text = ''Explore a different path'', nextScene = Some u\<rparr>)"
    by blast
  have un: "set ?un \<subseteq> sid ` set ?scs"
    using ord ids by (auto simp: set_order_def)
  have val: "validate_and_fix_scene_connections ord rnd script_data =
       Inr (script_data\<lparr>scenes := connected\<rparr>)"
    using fixed(1) start(1) conn(1)
    by (simp add: validate_and_fix_scene_connections_def Let_def)
  have conn3: "\<forall>sc' \<in> set connected. \<forall>c \<in> set (scene_choices sc').
         (\<exists>sc \<in> set fixed. c \<in> set (scene_choices sc)) \<or>
         (\<exists>u \<in> sid ` set (scenes script_data).
            c = \<lparr>c_text = ''Explore a different path'', nextScene = Some u\<rparr>)"
  proof (intro ballI)
    fix sc' c
    assume a: "sc' \<in> set connected" "c \<in> set (scene_choices sc')"
    have "(\<exists>sc \<in> set fixed. c \<in> set (scene_choices sc)) \<or>
       (\<exists>u \<in> set ?un. c = \<lparr>c_text = ''Explore a different path'', nextScene = Some u\<rparr>)"
      by (rule bspec [OF bspec [OF conn(3) a(1)] a(2)])
    then show "(\<exists>sc \<in> set fixed. c \<in> set (scene_choices sc)) \<or>
         (\<exists>u \<in> sid ` set (scenes script_data).
            c = \<lparr>c_text = ''Explore a different path'', nextScene = Some u\<rparr>)"
    proof
      assume "\<exists>sc \<in> set fixed. c \<in> set (scene_choices sc)"
      then show ?thesis ..
    next
      assume "\<exists>u \<in> set ?un. c = \<lparr>c_text = ''Explore a different path'', nextScene = Some u\<rparr>"
      then obtain u where u: "u \<in> set ?un"
        "c = \<lparr>c_text = ''Explore a different path'', nextScene = Some u\<rparr>" ..
      from u(1) un have "u \<in> sid ` set (scenes script_data)" ..
      with u(2) show ?thesis by (intro disjI2 bexI)
    qed
  qed
  have fixed3: "\<forall>sc \<in> set fixed. \<forall>c \<in> set (scene_choices sc).
         \<not> dangling (sid ` set (scenes script_data)) c"
    using fixed(3) unfolding ids .
  have sids: "map sid connected = map sid (scenes script_data)"
    using conn(2) fixed(2) by simp
  show ?thesis
    apply (rule exI [of _ fixed], rule exI [of _ start], rule exI [of _ connected])
    apply (intro conjI)
    apply (rule fixed(1))
    apply (rule fixed(2))
    apply (rule fixed3)
    apply (rule start(1))
    apply (rule start(2))
    apply (rule conn(1))
    apply (rule sids)
    apply (rule conn3)
    apply (rule val)
    done
qed

text \<open>
  C1. For every script with at least one scene the validator returns, and in its
  result every choice of every dialogue entry of every scene that carries a
  \<^verbatim>\<open>nextScene\<close> names \<^verbatim>\<open>"exit"\<close> or the id of a scene of the result: no reference
  dangles. This holds whatever the iteration order of the sets and the random draws.
\<close>

theorem validate_no_dangling_references:
  assumes "set_order ord" and "scenes script_data \<noteq> []"
  shows "\<exists>out. validate_and_fix_scene_connections ord rnd script_data = Inr out \<and>
           (\<forall>sc \<in> set (scenes out). \<forall>d \<in> set (dialogue sc). \<forall>cs. choices d = Some cs \<longrightarrow>
              (\<forall>c \<in> set cs. \<forall>n. nextScene c = Some n \<longrightarrow>
                 n = ''exit'' \<or> n \<in> sid ` set (scenes out)))"
proof -
  from validate_returns [OF assms, of rnd]
  obtain fixed connected where
    fixed: "\<forall>sc \<in> set fixed. \<forall>c \<in> set (scene_choices sc).
         \<not> dangling (sid ` set (scenes script_data)) c"
    and sids: "map sid connected = map sid (scenes script_data)"
    and conn: "\<forall>sc' \<in> set connected. \<forall>c \<in> set (scene_choices sc').
         (\<exists>sc \<in> set fixed. c \<in> set (scene_choices sc)) \<or>
         (\<exists>u \<in> sid ` set (scenes script_data).
            c = \<lparr>c_text = ''Explore a different path'', nextScene = Some u\<rparr>)"
    and val: "validate_and_fix_scene_connections ord rnd script_data =
       Inr (script_data\<lparr>scenes := connected\<rparr>)"
    by blast
  from sids have I: "sid ` set connected = sid ` set (scenes script_data)"
    by (metis set_map)
  have "n = ''exit'' \<or> n \<in> sid ` set connected"
    if "sc \<in> set connected" "d \<in> set (dialogue sc)" "choices d = Some cs" "c \<in> set cs"
       "nextScene c = Some n" for sc d cs c n
  proof -
    from that have c: "c \<in> set (scene_choices sc)" by (auto simp: scene_choices_iff)
    from conn that(1) c consider
      (old) sc0 where "sc0 \<in> set fixed" "c \<in> set (scene_choices sc0)"
      | (new) u where "u \<in> sid ` set (scenes script_data)"
          "c = \<lparr>c_text = ''Explore a different path'', nextScene = Some u\<rparr>"
      by blast
    then have "\<not> dangling (sid ` set (scenes script_data)) c"
    proof cases
      case old
      with fixed show ?thesis by blast
    next
      case new
      then show ?thesis by (simp add: dangling_def)
    qed
    with that(5) I show ?thesis by (auto simp: dangling_def)
  qed
  with val show ?thesis by auto
qed


definition example_script :: script where
  "example_script =
     \<lparr>title = ''t'',
      scenes =
        [\<lparr>sid = ''scene_1'', background = ''b1'', characters = [],
          dialogue =
            [\<lparr>speaker = ''Narrator'', d_text = ''a'', character = None,
              choices = Some [\<lparr>c_text = ''go'', nextScene = Some ''scene_2''\<rparr>]\<rparr>],
          generated_with = None\<rparr>,
         \<lparr>sid = ''scene_3'', background = ''b3'', characters = [],
          dialogue = [], generated_with = None\<rparr>]\<rparr>"

theorem validate_no_dangling_references_witness:
  "set_order remdups \<and> scenes example_script \<noteq> [] \<and>
   (\<exists>out. validate_and_fix_scene_connections remdups (\<lambda>_. 2) example_script = Inr out \<and>
      (\<forall>sc \<in> set (scenes out). \<forall>d \<in> set (dialogue sc). \<forall>cs. choices d = Some cs \<longrightarrow>
         (\<forall>c \<in> set cs. \<forall>n. nextScene c = Some n \<longrightarrow>
            n = ''exit'' \<or> n \<in> sid ` set (scenes out))))"
proof -
  have o: "set_order remdups" by (simp add: set_order_def)
  have n: "scenes example_script \<noteq> []" by (simp add: example_script_def)
  from validate_no_dangling_references [OF o n, of "\<lambda>_. 2"] o n show ?thesis
    by (intro conjI)
qed

subsection \<open>The validator's frame: what it leaves alone\<close>

text \<open>
  \<open>choice_frame I c c'\<close>: the choice \<open>c'\<close> is \<open>c\<close>, or \<open>c\<close> with its dangling
  \<^verbatim>\<open>nextScene\<close> rewritten to a scene id. \<open>added_choice I c\<close>: \<open>c\<close> is a choice the
  reachability repair appends. The scene ids \<open>I\<close> are those of the input.
\<close>

definition choice_frame :: "string set \<Rightarrow> choice \<Rightarrow> choice \<Rightarrow> bool" where
  "choice_frame I c c' \<longleftrightarrow>
     c_text c' = c_text c \<and>
     (nextScene c' = nextScene c \<or>
      (dangling I c \<and> (case nextScene c' of None \<Rightarrow> False | Some n \<Rightarrow> n \<in> I)))"

definition added_choice :: "string set \<Rightarrow> choice \<Rightarrow> bool" where
  "added_choice I c \<longleftrightarrow>
     c_text c = ''Explore a different path'' \<and>
     (case nextScene c of None \<Rightarrow> False | Some u \<Rightarrow> u \<in> I)"

definition choices_frame :: "string set \<Rightarrow> choice list \<Rightarrow> choice list \<Rightarrow> bool" where
  "choices_frame I cs cs' \<longleftrightarrow>
     length cs \<le> length cs' \<and>
     list_all2 (choice_frame I) cs (take (length cs) cs') \<and>
     list_all (added_choice I) (drop (length cs) cs')"

definition dialogue_frame :: "string set \<Rightarrow> dialogue_entry \<Rightarrow> dialogue_entry \<Rightarrow> bool" where
  "dialogue_frame I d d' \<longleftrightarrow>
     speaker d' = speaker d \<and> d_text d' = d_text d \<and> character d' = character d \<and>
     (case choices d of
        None \<Rightarrow> choices d' = None
      | Some cs \<Rightarrow> (case choices d' of None \<Rightarrow> False | Some cs' \<Rightarrow> choices_frame I cs cs'))"

definition scene_frame :: "string set \<Rightarrow> scene \<Rightarrow> scene \<Rightarrow> bool" where
  "scene_frame I sc sc' \<longleftrightarrow>
     sid sc' = sid sc \<and> background sc' = background sc \<and> characters sc' = characters sc \<and>
     generated_with sc' = generated_with sc \<and>
     list_all2 (dialogue_frame I) (dialogue sc) (dialogue sc')"

definition script_frame :: "script \<Rightarrow> script \<Rightarrow> bool" where
  "script_frame script_data out \<longleftrightarrow>
     title out = title script_data \<and>
     list_all2 (scene_frame (sid ` set (scenes script_data))) (scenes script_data) (scenes out)"

lemma choices_frame_iff:
  "choices_frame I cs cs' \<longleftrightarrow>
     (\<exists>a e. cs' = a @ e \<and> list_all2 (choice_frame I) cs a \<and> list_all (added_choice I) e)"
proof
  assume "choices_frame I cs cs'"
  then have "cs' = take (length cs) cs' @ drop (length cs) cs' \<and>
      list_all2 (choice_frame I) cs (take (length cs) cs') \<and>
      list_all (added_choice I) (drop (length cs) cs')"
    by (simp add: choices_frame_def)
  then show "\<exists>a e. cs' = a @ e \<and> list_all2 (choice_frame I) cs a \<and> list_all (added_choice I) e"
    by blast
next
  assume "\<exists>a e. cs' = a @ e \<and> list_all2 (choice_frame I) cs a \<and> list_all (added_choice I) e"
  then obtain a e where ae: "cs' = a @ e" "list_all2 (choice_frame I) cs a"
    "list_all (added_choice I) e" by blast
  from ae(2) have "length cs = length a" by (rule list_all2_lengthD)
  with ae show "choices_frame I cs cs'" by (simp add: choices_frame_def)
qed

lemma choice_frame_refl: "choice_frame I c c"
  by (simp add: choice_frame_def)

lemma choice_frame_trans:
  "choice_frame I a b \<Longrightarrow> choice_frame I b c \<Longrightarrow> choice_frame I a c"
  by (auto simp: choice_frame_def dangling_def split: option.splits)

lemma choice_frame_added:
  "added_choice I b \<Longrightarrow> choice_frame I b c \<Longrightarrow> added_choice I c"
  by (auto simp: choice_frame_def added_choice_def dangling_def split: option.splits)

lemma choices_frame_refl: "choices_frame I cs cs"
  by (simp add: choices_frame_def list_all2_refl choice_frame_refl)

lemma choices_frame_trans:
  assumes "choices_frame I xs ys" "choices_frame I ys zs"
  shows "choices_frame I xs zs"
proof -
  from assms(1) obtain a e where ae: "ys = a @ e" "list_all2 (choice_frame I) xs a"
    "list_all (added_choice I) e" unfolding choices_frame_iff by blast
  from assms(2) obtain b f where bf: "zs = b @ f" "list_all2 (choice_frame I) ys b"
    "list_all (added_choice I) f" unfolding choices_frame_iff by blast
  from bf(2) ae(1) obtain b1 b2 where b: "b = b1 @ b2" "list_all2 (choice_frame I) a b1"
    "list_all2 (choice_frame I) e b2"
    by (auto simp: list_all2_append1)
  have "list_all2 (choice_frame I) xs b1"
    using ae(2) b(2) by (rule list_all2_trans [rotated]) (rule choice_frame_trans)
  moreover have "list_all (added_choice I) b2"
    unfolding list_all_iff
  proof
    fix x assume "x \<in> set b2"
    then obtain i where i: "i < length b2" "b2 ! i = x" by (auto simp: in_set_conv_nth)
    from b(3) i(1) have "length e = length b2" "choice_frame I (e ! i) (b2 ! i)"
      by (auto simp: list_all2_conv_all_nth)
    moreover from this(1) i(1) ae(3) have "added_choice I (e ! i)"
      by (simp add: list_all_iff)
    ultimately show "added_choice I x" using i(2) choice_frame_added by blast
  qed
  ultimately have "zs = b1 @ (b2 @ f) \<and> list_all2 (choice_frame I) xs b1 \<and>
      list_all (added_choice I) (b2 @ f)"
    using bf b(1) by simp
  then show ?thesis unfolding choices_frame_iff by blast
qed

lemma dialogue_frame_refl: "dialogue_frame I d d"
  by (simp add: dialogue_frame_def choices_frame_refl split: option.splits)

lemma dialogue_frame_trans:
  "dialogue_frame I a b \<Longrightarrow> dialogue_frame I b c \<Longrightarrow> dialogue_frame I a c"
  by (auto simp: dialogue_frame_def split: option.splits intro: choices_frame_trans)

lemma scene_frame_refl: "scene_frame I sc sc"
  by (simp add: scene_frame_def list_all2_refl dialogue_frame_refl)

lemma scene_frame_trans:
  assumes "scene_frame I a b" "scene_frame I b c"
  shows "scene_frame I a c"
proof -
  have "list_all2 (dialogue_frame I) (dialogue a) (dialogue c)"
    using assms by (auto simp: scene_frame_def intro: list_all2_trans [rotated] dialogue_frame_trans)
  with assms show ?thesis by (simp add: scene_frame_def)
qed

lemma scenes_frame_trans:
  "list_all2 (scene_frame I) xs ys \<Longrightarrow> list_all2 (scene_frame I) ys zs \<Longrightarrow>
     list_all2 (scene_frame I) xs zs"
  using scene_frame_trans [of I] by (rule list_all2_trans)


lemma fix_choice_frame:
  assumes "next_scene r \<notin> I" "next_scene r \<noteq> ''exit''" "new \<in> I"
  shows "choice_frame I c (fix_choice r new c)"
  using assms by (simp add: choice_frame_def fix_choice_def matches_def dangling_def)

lemma fix_dialogue_frame:
  assumes "next_scene r \<notin> I" "next_scene r \<noteq> ''exit''" "new \<in> I"
  shows "dialogue_frame I d (fix_dialogue r new d)"
proof (cases "choices d")
  case None
  then show ?thesis by (simp add: dialogue_frame_def fix_dialogue_def)
next
  case (Some cs)
  have "list_all2 (choice_frame I) cs (map (fix_choice r new) cs)"
    by (simp add: list_all2_conv_all_nth fix_choice_frame [OF assms])
  then have "choices_frame I cs (map (fix_choice r new) cs)"
    by (simp add: choices_frame_def)
  with Some show ?thesis by (simp add: dialogue_frame_def fix_dialogue_def)
qed

lemma fix_scene_frame:
  assumes "next_scene r \<notin> I" "next_scene r \<noteq> ''exit''" "new \<in> I"
  shows "scene_frame I sc (fix_scene r new sc)"
  by (simp add: scene_frame_def fix_scene_def list_all2_conv_all_nth
      fix_dialogue_frame [OF assms] dialogue_frame_refl)

lemma fix_reference_cases:
  "fix_reference ids r scs = Inr scs' \<Longrightarrow>
     scs' = scs \<or> (\<exists>new \<in> set ids. scs' = map (fix_scene r new) scs)"
proof (cases "similar_ids ids r")
  case (Cons s ss)
  assume a: "fix_reference ids r scs = Inr scs'"
  from Cons have "s \<in> set (similar_ids ids r)" by simp
  then have "s \<in> set ids" by (simp add: similar_ids_def)
  with Cons a show ?thesis by (auto simp: fix_reference_def)
next
  case Nil
  assume a: "fix_reference ids r scs = Inr scs'"
  with Nil show ?thesis
    by (cases ids) (auto simp: fix_reference_def split: if_splits)
qed

lemma fix_invalid_refs_frame:
  assumes "\<forall>r \<in> set rs. is_invalid ids r" "fix_invalid_refs ids rs scs = Inr scs'"
  shows "list_all2 (scene_frame (set ids)) scs scs'"
  using assms
proof (induction rs arbitrary: scs)
  case Nil
  then show ?case by (simp add: list_all2_refl scene_frame_refl)
next
  case (Cons r rs)
  from Cons.prems(2) obtain scs1 where s1: "fix_reference ids r scs = Inr scs1"
    "fix_invalid_refs ids rs scs1 = Inr scs'"
    by (auto split: sum.splits)
  from Cons.prems(1) have inv: "next_scene r \<notin> set ids" "next_scene r \<noteq> ''exit''"
    by (auto simp: is_invalid_def)
  have "list_all2 (scene_frame (set ids)) scs scs1"
    using fix_reference_cases [OF s1(1)]
  proof
    assume "scs1 = scs"
    then show ?thesis by (simp add: list_all2_refl scene_frame_refl)
  next
    assume "\<exists>new \<in> set ids. scs1 = map (fix_scene r new) scs"
    then obtain new where "new \<in> set ids" "scs1 = map (fix_scene r new) scs" ..
    then show ?thesis
      by (simp add: list_all2_conv_all_nth fix_scene_frame [OF inv])
  qed
  moreover have "list_all2 (scene_frame (set ids)) scs1 scs'"
    using Cons.IH [OF _ s1(2)] Cons.prems(1) by simp
  ultimately show ?case by (rule scenes_frame_trans)
qed

lemma append_choice_frame:
  assumes "added_choice I c"
  shows "list_all2 (dialogue_frame I) ds (append_choice ds c)"
proof (induction ds)
  case Nil
  show ?case by simp
next
  case (Cons d ds)
  show ?case
  proof (cases "choices d")
    case None
    with Cons show ?thesis by (simp add: dialogue_frame_refl)
  next
    case (Some cs)
    have "choices_frame I cs (cs @ [c])"
      unfolding choices_frame_iff
      using assms by (intro exI [of _ cs] exI [of _ "[c]"])
        (simp add: list_all2_refl choice_frame_refl)
    then have "dialogue_frame I d (d\<lparr>choices := Some (cs @ [c])\<rparr>)"
      using Some by (simp add: dialogue_frame_def)
    with Some show ?thesis by (simp add: list_all2_refl dialogue_frame_refl)
  qed
qed

lemma connect_scene_frame:
  assumes "u \<in> I"
  shows "scene_frame I sc (connect_scene s u sc)"
proof -
  let ?c = "\<lparr>c_text = ''Explore a different path'', nextScene = Some u\<rparr>"
  have "added_choice I ?c" using assms by (simp add: added_choice_def)
  then have "list_all2 (dialogue_frame I) (rev (dialogue sc)) (append_choice (rev (dialogue sc)) ?c)"
    by (rule append_choice_frame)
  then have "list_all2 (dialogue_frame I) (rev (rev (dialogue sc)))
      (rev (append_choice (rev (dialogue sc)) ?c))"
    by (simp only: list_all2_rev)
  then show ?thesis
    by (simp add: scene_frame_def connect_scene_def list_all2_refl dialogue_frame_refl)
qed

lemma connect_unreachable_frame:
  assumes "set us \<subseteq> I" "connect_unreachable R rnd us scs = Inr scs'"
  shows "list_all2 (scene_frame I) scs scs'"
  using assms
proof (induction us arbitrary: scs)
  case Nil
  then show ?case by (simp add: list_all2_refl scene_frame_refl)
next
  case (Cons u us)
  from Cons.prems(2) obtain s where s: "random_choice (rnd u) R = Inr s"
    "connect_unreachable R rnd us (map (connect_scene s u) scs) = Inr scs'"
    by (auto split: sum.splits)
  from Cons.prems(1) have u: "u \<in> I" by simp
  have "list_all2 (scene_frame I) scs (map (connect_scene s u) scs)"
    by (simp add: list_all2_conv_all_nth connect_scene_frame [OF u])
  moreover have "list_all2 (scene_frame I) (map (connect_scene s u) scs) scs'"
    using Cons.IH [OF _ s(2)] Cons.prems(1) by simp
  ultimately show ?case by (rule scenes_frame_trans)
qed

lemma validate_frame:
  assumes "set_order ord"
    and "validate_and_fix_scene_connections ord rnd script_data = Inr out"
  shows "script_frame script_data out"
proof -
  let ?scs = "scenes script_data"
  let ?ids = "ord (map sid ?scs)"
  let ?refs = "next_scene_refs ?scs"
  from assms(1) have ids: "set ?ids = sid ` set ?scs" by (simp add: set_order_def)
  from assms(2) obtain fixed start connected where
    f: "fix_invalid_refs ?ids (filter (is_invalid ?ids) ?refs) ?scs = Inr fixed"
    and st: "initial_reachable ?ids = Inr start"
    and c: "connect_unreachable (ord (reach_loop ?refs start 0)) rnd
              (ord (filter (\<lambda>s. s \<notin> set (reach_loop ?refs start 0)) ?ids)) fixed = Inr connected"
    and out: "out = script_data\<lparr>scenes := connected\<rparr>"
    by (auto simp: validate_and_fix_scene_connections_def Let_def split: sum.splits)
  have "list_all2 (scene_frame (set ?ids)) ?scs fixed"
    by (rule fix_invalid_refs_frame [OF _ f]) simp
  moreover have "set (ord (filter (\<lambda>s. s \<notin> set (reach_loop ?refs start 0)) ?ids)) \<subseteq> set ?ids"
    using assms(1) by (auto simp: set_order_def)
  then have "list_all2 (scene_frame (set ?ids)) fixed connected"
    using c by (rule connect_unreachable_frame)
  ultimately have "list_all2 (scene_frame (set ?ids)) ?scs connected"
    by (rule scenes_frame_trans)
  with out ids show ?thesis by (simp add: script_frame_def)
qed

text \<open>
  C10. Whenever the validator returns, its result has the title of the input and, scene
  by scene in the same order, the same id, background, characters and number of
  dialogue entries; each dialogue entry keeps its speaker, text and character; an entry
  without a \<^verbatim>\<open>choices\<close> list still has none; an entry with one keeps every choice at
  its position with its text, the \<^verbatim>\<open>nextScene\<close> of a dangling choice alone being
  rewritten to a scene id, and gains at its end only choices
  \<^verbatim>\<open>"Explore a different path"\<close> to a scene id.
\<close>

theorem validate_never_removes:
  assumes "set_order ord"
    and "validate_and_fix_scene_connections ord rnd script_data = Inr out"
  shows "script_frame script_data out"
  using assms by (rule validate_frame)


definition example_out :: script where
  "example_out =
     \<lparr>title = ''t'',
      scenes =
        [\<lparr>sid = ''scene_1'', background = ''b1'', characters = [],
          dialogue =
            [\<lparr>speaker = ''Narrator'', d_text = ''a'', character = None,
              choices = Some [\<lparr>c_text = ''go'', nextScene = Some ''scene_1''\<rparr>,
                \<lparr>c_text = ''Explore a different path'', nextScene = Some ''scene_3''\<rparr>]\<rparr>],
          generated_with = None\<rparr>,
         \<lparr>sid = ''scene_3'', background = ''b3'', characters = [],
          dialogue = [], generated_with = None\<rparr>]\<rparr>"

lemma validate_example:
  "validate_and_fix_scene_connections remdups (\<lambda>_. 2) example_script = Inr example_out"
  by (simp add: validate_and_fix_scene_connections_def example_script_def example_out_def
      next_scene_refs_def scene_refs_def dialogue_refs_def choice_refs_def is_invalid_def
      fix_reference_def similar_ids_def fix_scene_def fix_dialogue_def fix_choice_def
      matches_def initial_reachable_def reach_loop.simps expand_pass_def expand_step_def
      random_choice_def connect_scene_def)

theorem validate_never_removes_witness:
  "set_order remdups \<and>
   validate_and_fix_scene_connections remdups (\<lambda>_. 2) example_script = Inr example_out \<and>
   script_frame example_script example_out"
proof -
  have o: "set_order remdups" by (simp add: set_order_def)
  from validate_never_removes [OF o validate_example] o validate_example
  show ?thesis by (intro conjI)
qed

subsection \<open>A script without scenes\<close>

text \<open>
  On a script without scenes the validator has no output: neither start id is a scene,
  and \<^verbatim>\<open>next(iter(scene_ids))\<close> raises \<^verbatim>\<open>StopIteration\<close> on the empty set.
\<close>

lemma validate_empty_script:
  assumes "set_order ord" "scenes script_data = []"
  shows "validate_and_fix_scene_connections ord rnd script_data = Inl StopIteration"
proof -
  from assms have "set (ord []) = {}" by (simp add: set_order_def)
  then have "ord [] = []" by simp
  with assms(2) show ?thesis
    by (simp add: validate_and_fix_scene_connections_def next_scene_refs_def
        initial_reachable_def)
qed

subsection \<open>Reachability\<close>

text \<open>
  \<open>reachable_from scs e x\<close>: the scene id \<open>x\<close> is \<open>e\<close> itself, or is reached from \<open>e\<close>
  along choices of scenes of \<open>scs\<close> whose \<^verbatim>\<open>nextScene\<close> is not \<^verbatim>\<open>"exit"\<close>.
\<close>

inductive reachable_from :: "scene list \<Rightarrow> string \<Rightarrow> string \<Rightarrow> bool"
  for scs :: "scene list" and e :: string where
  entry: "reachable_from scs e e"
| choice: "reachable_from scs e s \<Longrightarrow> sc \<in> set scs \<Longrightarrow> sid sc = s \<Longrightarrow>
     c \<in> set (scene_choices sc) \<Longrightarrow> nextScene c = Some n \<Longrightarrow> n \<noteq> ''exit'' \<Longrightarrow>
     reachable_from scs e n"

text \<open>
  The designated entry: \<^verbatim>\<open>scene_intro\<close> if it is a scene, else \<^verbatim>\<open>scene_1\<close>, else the
  first scene id in the iteration order of \<^verbatim>\<open>scene_ids\<close>.
\<close>

definition entry_id :: "(string list \<Rightarrow> string list) \<Rightarrow> scene list \<Rightarrow> string" where
  "entry_id ord scs =
     (if ''scene_intro'' \<in> sid ` set scs then ''scene_intro''
      else if ''scene_1'' \<in> sid ` set scs then ''scene_1''
      else (case ord (map sid scs) of [] \<Rightarrow> [] | i # _ \<Rightarrow> i))"

text \<open>
  The values the validator computes on the way: the set \<^verbatim>\<open>reachable\<close> after the loop,
  the set \<^verbatim>\<open>unreachable\<close>, and the source \<^verbatim>\<open>random.choice(list(reachable))\<close> drawn for
  an unreachable scene.
\<close>

definition reachable_set :: "(string list \<Rightarrow> string list) \<Rightarrow> scene list \<Rightarrow> string list" where
  "reachable_set ord scs =
     (case initial_reachable (ord (map sid scs)) of
        Inl e \<Rightarrow> []
      | Inr start \<Rightarrow> reach_loop (next_scene_refs scs) start 0)"

definition unreachable_set :: "(string list \<Rightarrow> string list) \<Rightarrow> scene list \<Rightarrow> string list" where
  "unreachable_set ord scs =
     ord (filter (\<lambda>s. s \<notin> set (reachable_set ord scs)) (ord (map sid scs)))"

definition chosen_source ::
  "(string list \<Rightarrow> string list) \<Rightarrow> (string \<Rightarrow> nat) \<Rightarrow> scene list \<Rightarrow> string \<Rightarrow> error + string" where
  "chosen_source ord rnd scs u = random_choice (rnd u) (ord (reachable_set ord scs))"

definition has_choices :: "scene \<Rightarrow> bool" where
  "has_choices sc \<longleftrightarrow> (\<exists>d \<in> set (dialogue sc). choices d \<noteq> None)"

lemma expand_pass_invariant:
  assumes "\<And>r R. r \<in> set refs \<Longrightarrow> P R \<Longrightarrow> P (expand_step r R)" "P R"
  shows "P (expand_pass refs R)"
  unfolding expand_pass_def using assms
proof (induction refs arbitrary: R)
  case Nil
  then show ?case by simp
next
  case (Cons r refs)
  have "P (expand_step r R)" using Cons.prems by simp
  then have "P (fold expand_step refs (expand_step r R))"
    using Cons.prems(1) by (intro Cons.IH) auto
  then show ?case by simp
qed

lemma reach_loop_invariant:
  assumes "\<And>r R. r \<in> set refs \<Longrightarrow> P R \<Longrightarrow> P (expand_step r R)" "P start"
  shows "P (reach_loop refs start k)"
  using assms
proof (induction refs start k rule: reach_loop.induct)
  case (1 refs reachable old_size)
  show ?case
  proof (cases "old_size < length reachable")
    case True
    have "P (expand_pass refs reachable)"
      using "1.prems" by (rule expand_pass_invariant)
    with "1.IH" [OF True "1.prems"(1)] True show ?thesis
      by (subst reach_loop.simps) simp
  next
    case False
    with "1.prems"(2) show ?thesis by (subst reach_loop.simps) simp
  qed
qed

lemma frame_keeps_valid_choice:
  assumes fr: "list_all2 (scene_frame I) scs scs'"
    and sc: "sc \<in> set scs" and c: "c \<in> set (scene_choices sc)" and nd: "\<not> dangling I c"
  shows "\<exists>sc' \<in> set scs'. sid sc' = sid sc \<and>
           (\<exists>c' \<in> set (scene_choices sc'). nextScene c' = nextScene c)"
proof -
  from sc obtain i where i: "i < length scs" "scs ! i = sc" by (auto simp: in_set_conv_nth)
  with fr have len: "length scs' = length scs" and sf: "scene_frame I sc (scs' ! i)"
    by (auto simp: list_all2_conv_all_nth)
  let ?sc' = "scs' ! i"
  from c obtain d cs where d: "d \<in> set (dialogue sc)" "choices d = Some cs" "c \<in> set cs"
    by (auto simp: scene_choices_iff)
  from d(1) obtain j where j: "j < length (dialogue sc)" "dialogue sc ! j = d"
    by (auto simp: in_set_conv_nth)
  from sf have dl: "list_all2 (dialogue_frame I) (dialogue sc) (dialogue ?sc')"
    by (simp add: scene_frame_def)
  with j have jl: "j < length (dialogue ?sc')" and df: "dialogue_frame I d (dialogue ?sc' ! j)"
    by (auto simp: list_all2_conv_all_nth)
  from df d(2) obtain cs' where cs': "choices (dialogue ?sc' ! j) = Some cs'"
    "choices_frame I cs cs'"
    by (auto simp: dialogue_frame_def split: option.splits)
  from cs'(2) obtain a e where ae: "cs' = a @ e" "list_all2 (choice_frame I) cs a"
    unfolding choices_frame_iff by blast
  from d(3) obtain k where k: "k < length cs" "cs ! k = c" by (auto simp: in_set_conv_nth)
  with ae(2) have ka: "k < length a" and cf: "choice_frame I c (a ! k)"
    by (auto simp: list_all2_conv_all_nth)
  from cf nd have same: "nextScene (a ! k) = nextScene c"
    by (auto simp: choice_frame_def)
  from ka ae(1) have "a ! k \<in> set cs'" by simp
  with cs'(1) jl have "a ! k \<in> set (scene_choices ?sc')"
    unfolding scene_choices_iff by (metis nth_mem)
  moreover from i len have "?sc' \<in> set scs'" by simp
  moreover from sf have "sid ?sc' = sid sc" by (simp add: scene_frame_def)
  ultimately show ?thesis using same by blast
qed

lemma has_choices_frame:
  assumes "scene_frame I sc sc'" "has_choices sc"
  shows "has_choices sc'"
proof -
  from assms(2) obtain d where d: "d \<in> set (dialogue sc)" "choices d \<noteq> None"
    by (auto simp: has_choices_def)
  then obtain j where j: "j < length (dialogue sc)" "dialogue sc ! j = d"
    by (auto simp: in_set_conv_nth)
  from assms(1) have "list_all2 (dialogue_frame I) (dialogue sc) (dialogue sc')"
    by (simp add: scene_frame_def)
  with j have jl: "j < length (dialogue sc')" and df: "dialogue_frame I d (dialogue sc' ! j)"
    by (auto simp: list_all2_conv_all_nth)
  from df d(2) have "choices (dialogue sc' ! j) \<noteq> None"
    by (auto simp: dialogue_frame_def split: option.splits)
  with jl show ?thesis unfolding has_choices_def by (metis nth_mem)
qed

lemma connect_unreachable_keeps:
  assumes "connect_unreachable R rnd us scs = Inr scs'" "sc \<in> set scs"
    "c \<in> set (scene_choices sc)"
  shows "\<exists>sc' \<in> set scs'. sid sc' = sid sc \<and> c \<in> set (scene_choices sc')"
  using assms
proof (induction us arbitrary: scs sc)
  case Nil
  then show ?case by auto
next
  case (Cons u us)
  from Cons.prems(1) obtain s where s: "random_choice (rnd u) R = Inr s"
    "connect_unreachable R rnd us (map (connect_scene s u) scs) = Inr scs'"
    by (auto split: sum.splits)
  have "connect_scene s u sc \<in> set (map (connect_scene s u) scs)"
    using Cons.prems(2) by simp
  moreover have "c \<in> set (scene_choices (connect_scene s u sc))"
    using Cons.prems(3) by (simp add: scene_choices_connect_scene)
  ultimately show ?case using Cons.IH [OF s(2)] by fastforce
qed

lemma connect_unreachable_adds:
  assumes "connect_unreachable R rnd us scs = Inr scs'" "u \<in> set us"
    "random_choice (rnd u) R = Inr p" "sc \<in> set scs" "sid sc = p" "has_choices sc"
  shows "\<exists>sc' \<in> set scs'. sid sc' = p \<and>
           \<lparr>c_text = ''Explore a different path'', nextScene = Some u\<rparr> \<in> set (scene_choices sc')"
  using assms
proof (induction us arbitrary: scs sc)
  case Nil
  then show ?case by simp
next
  case (Cons v us)
  from Cons.prems(1) obtain s where s: "random_choice (rnd v) R = Inr s"
    "connect_unreachable R rnd us (map (connect_scene s v) scs) = Inr scs'"
    by (auto split: sum.splits)
  let ?sc1 = "connect_scene s v sc"
  have in1: "?sc1 \<in> set (map (connect_scene s v) scs)" using Cons.prems(4) by simp
  show ?case
  proof (cases "u = v")
    case True
    with s(1) Cons.prems(3) have "s = p" by simp
    with True Cons.prems(5,6)
    have "\<lparr>c_text = ''Explore a different path'', nextScene = Some u\<rparr> \<in> set (scene_choices ?sc1)"
      by (simp add: scene_choices_connect_scene has_choices_def)
    from connect_unreachable_keeps [OF s(2) in1 this] Cons.prems(5) show ?thesis by simp
  next
    case False
    with Cons.prems(2) have u: "u \<in> set us" by simp
    have "scene_frame UNIV sc ?sc1" by (rule connect_scene_frame) simp
    then have hc: "has_choices ?sc1" using Cons.prems(6) by (rule has_choices_frame)
    have "sid ?sc1 = p" using Cons.prems(5) by simp
    from Cons.IH [OF s(2) u Cons.prems(3) in1 this hc] show ?thesis .
  qed
qed


lemma random_choice_mem: "random_choice k xs = Inr x \<Longrightarrow> x \<in> set xs"
proof -
  assume a: "random_choice k xs = Inr x"
  then have ne: "xs \<noteq> []" and x: "x = xs ! (k mod length xs)"
    by (auto simp: random_choice_def split: if_splits)
  from ne have "k mod length xs < length xs" by simp
  then show ?thesis unfolding x by (rule nth_mem)
qed

lemma closure_reachable:
  assumes fr: "list_all2 (scene_frame (sid ` set scs)) scs out"
    and start: "E = set start \<inter> sid ` set scs"
  shows "\<forall>x \<in> set (reach_loop (next_scene_refs scs) start k).
           x \<in> sid ` set scs \<longrightarrow> (\<exists>e \<in> E. reachable_from out e x)"
proof (rule reach_loop_invariant)
  show "\<forall>x \<in> set start. x \<in> sid ` set scs \<longrightarrow> (\<exists>e \<in> E. reachable_from out e x)"
    using start by (auto intro: reachable_from.entry)
next
  fix r R
  assume r: "r \<in> set (next_scene_refs scs)"
    and P: "\<forall>x \<in> set R. x \<in> sid ` set scs \<longrightarrow> (\<exists>e \<in> E. reachable_from out e x)"
  show "\<forall>x \<in> set (expand_step r R). x \<in> sid ` set scs \<longrightarrow> (\<exists>e \<in> E. reachable_from out e x)"
  proof (intro ballI impI)
    fix x
    assume x: "x \<in> set (expand_step r R)" "x \<in> sid ` set scs"
    show "\<exists>e \<in> E. reachable_from out e x"
    proof (cases "x \<in> set R")
      case True
      with P x(2) show ?thesis by blast
    next
      case False
      with x(1) have new: "x = next_scene r" "source_scene r \<in> set R" "next_scene r \<noteq> ''exit''"
        by (auto simp: expand_step_def split: if_splits)
      from next_scene_refs_source [OF r]
      obtain sc c where sc: "sc \<in> set scs" "c \<in> set (scene_choices sc)"
        "source_scene r = sid sc" "nextScene c = Some (next_scene r)" by blast
      from sc(1,3) new(2) P obtain e where e: "e \<in> E" "reachable_from out e (sid sc)"
        by auto
      from sc(4) x(2) new(1) have "\<not> dangling (sid ` set scs) c"
        by (simp add: dangling_def)
      from frame_keeps_valid_choice [OF fr sc(1,2) this]
      obtain sc' c' where c': "sc' \<in> set out" "sid sc' = sid sc"
        "c' \<in> set (scene_choices sc')" "nextScene c' = nextScene c" by blast
      from e(2) c'(1,2,3) have "reachable_from out e x"
      proof (rule reachable_from.choice)
        show "nextScene c' = Some x" using c'(4) sc(4) new(1) by simp
        show "x \<noteq> ''exit''" using new by simp
      qed
      with e(1) show ?thesis ..
    qed
  qed
qed

lemma validate_parts:
  assumes "validate_and_fix_scene_connections ord rnd script_data = Inr out"
  shows "\<exists>fixed start.
     fix_invalid_refs (ord (map sid (scenes script_data)))
        (filter (is_invalid (ord (map sid (scenes script_data))))
           (next_scene_refs (scenes script_data))) (scenes script_data) = Inr fixed \<and>
     initial_reachable (ord (map sid (scenes script_data))) = Inr start \<and>
     reachable_set ord (scenes script_data) =
        reach_loop (next_scene_refs (scenes script_data)) start 0 \<and>
     connect_unreachable (ord (reachable_set ord (scenes script_data))) rnd
        (unreachable_set ord (scenes script_data)) fixed = Inr (scenes out)"
  using assms
  by (auto simp: validate_and_fix_scene_connections_def Let_def reachable_set_def
      unreachable_set_def split: sum.splits)

lemma entry_ids:
  assumes ord: "set_order ord" and ne: "scs \<noteq> []"
    and one: "\<not> (''scene_intro'' \<in> sid ` set scs \<and> ''scene_1'' \<in> sid ` set scs)"
    and st: "initial_reachable (ord (map sid scs)) = Inr start"
  shows "set start \<inter> sid ` set scs = {entry_id ord scs}"
proof -
  from ord have ids: "set (ord (map sid scs)) = sid ` set scs" by (simp add: set_order_def)
  show ?thesis
  proof (cases "''scene_intro'' \<in> sid ` set scs \<or> ''scene_1'' \<in> sid ` set scs")
    case True
    with st ids have "start = [''scene_intro'', ''scene_1'']"
      by (simp add: initial_reachable_def)
    with True one show ?thesis by (auto simp: entry_id_def)
  next
    case False
    from ids ne obtain i rest where c: "ord (map sid scs) = i # rest"
      by (cases "ord (map sid scs)") auto
    from False ids have "\<not> (''scene_intro'' \<in> set (ord (map sid scs)) \<or>
        ''scene_1'' \<in> set (ord (map sid scs)))" by simp
    with st c have "start = [i]" by (simp add: initial_reachable_def del: set_simps)
    moreover from c ids have "i \<in> sid ` set scs" by (metis list.set_intros(1))
    ultimately show ?thesis using False c by (auto simp: entry_id_def)
  qed
qed

lemma entry_ids_both:
  assumes ord: "set_order ord" and ne: "scs \<noteq> []"
    and st: "initial_reachable (ord (map sid scs)) = Inr start"
    and e: "e \<in> set start \<inter> sid ` set scs"
  shows "e = entry_id ord scs \<or>
     (''scene_intro'' \<in> sid ` set scs \<and> ''scene_1'' \<in> sid ` set scs \<and> e = ''scene_1'')"
proof (cases "''scene_intro'' \<in> sid ` set scs \<and> ''scene_1'' \<in> sid ` set scs")
  case True
  from ord have ids: "set (ord (map sid scs)) = sid ` set scs" by (simp add: set_order_def)
  with True st have "start = [''scene_intro'', ''scene_1'']"
    by (simp add: initial_reachable_def)
  with e True show ?thesis by (auto simp: entry_id_def)
next
  case False
  from entry_ids [OF ord ne False st] e show ?thesis by simp
qed

text \<open>
  C2, as amended. For a script with at least one scene the validator returns, with the
  scene ids it was given. In its result a scene id is reachable from the entry id along
  choices that do not name \<^verbatim>\<open>"exit"\<close> whenever it is in the set \<^verbatim>\<open>reachable\<close> that the
  validator computed, or it is not \<^verbatim>\<open>exit\<close> and the source drawn for it is a scene that
  has a dialogue entry with a \<^verbatim>\<open>choices\<close> list. When \<^verbatim>\<open>scene_intro\<close> and \<^verbatim>\<open>scene_1\<close> are
  both scenes, the path may start at \<^verbatim>\<open>scene_1\<close> instead of the entry id.
\<close>

theorem validate_reachability_when_source_usable:
  assumes ord: "set_order ord" and ne: "scenes script_data \<noteq> []"
  shows "\<exists>out. validate_and_fix_scene_connections ord rnd script_data = Inr out \<and>
     map sid (scenes out) = map sid (scenes script_data) \<and>
     (\<forall>x \<in> sid ` set (scenes out).
        x \<in> set (reachable_set ord (scenes script_data)) \<or>
        (x \<noteq> ''exit'' \<and>
         (\<exists>sc \<in> set (scenes script_data).
            chosen_source ord rnd (scenes script_data) x = Inr (sid sc) \<and> has_choices sc)) \<longrightarrow>
        reachable_from (scenes out) (entry_id ord (scenes script_data)) x \<or>
        (''scene_intro'' \<in> sid ` set (scenes script_data) \<and>
         ''scene_1'' \<in> sid ` set (scenes script_data) \<and>
         reachable_from (scenes out) ''scene_1'' x))"
proof -
  let ?scs = "scenes script_data"
  let ?I = "sid ` set ?scs"
  let ?e = "entry_id ord ?scs"
  from validate_returns [OF ord ne, of rnd]
  obtain out where val: "validate_and_fix_scene_connections ord rnd script_data = Inr out"
    by blast
  from validate_frame [OF ord val]
  have fr: "list_all2 (scene_frame ?I) ?scs (scenes out)"
    by (simp add: script_frame_def)
  then have ms: "map sid (scenes out) = map sid ?scs"
    by (auto simp: list_all2_conv_all_nth scene_frame_def intro: nth_equalityI)
  then have I: "sid ` set (scenes out) = ?I" by (metis set_map)
  from validate_parts [OF val]
  obtain fixed start where
    f: "fix_invalid_refs (ord (map sid ?scs))
          (filter (is_invalid (ord (map sid ?scs))) (next_scene_refs ?scs)) ?scs = Inr fixed"
    and st: "initial_reachable (ord (map sid ?scs)) = Inr start"
    and rs: "reachable_set ord ?scs = reach_loop (next_scene_refs ?scs) start 0"
    and c: "connect_unreachable (ord (reachable_set ord ?scs)) rnd
              (unreachable_set ord ?scs) fixed = Inr (scenes out)"
    by blast
  from ord have ids: "set (ord (map sid ?scs)) = ?I" by (simp add: set_order_def)
  have ffr: "list_all2 (scene_frame ?I) ?scs fixed"
    using fix_invalid_refs_frame [OF _ f] ids by simp
  define goal where "goal x \<longleftrightarrow>
        reachable_from (scenes out) ?e x \<or>
        (''scene_intro'' \<in> ?I \<and> ''scene_1'' \<in> ?I \<and> reachable_from (scenes out) ''scene_1'' x)"
    for x
  have from_entry: "goal x" if "e \<in> set start \<inter> ?I" "reachable_from (scenes out) e x" for e x
    using entry_ids_both [OF ord ne st that(1)] that(2) unfolding goal_def by blast
  from closure_reachable [OF fr refl, of start 0] rs
  have closed: "\<forall>x \<in> set (reachable_set ord ?scs).
      x \<in> ?I \<longrightarrow> (\<exists>e \<in> set start \<inter> ?I. reachable_from (scenes out) e x)"
    by simp
  have "goal x" if x: "x \<in> ?I"
    and h: "x \<in> set (reachable_set ord ?scs) \<or>
        (x \<noteq> ''exit'' \<and>
         (\<exists>sc \<in> set ?scs. chosen_source ord rnd ?scs x = Inr (sid sc) \<and> has_choices sc))"
    for x
  proof (cases "x \<in> set (reachable_set ord ?scs)")
    case True
    with closed x obtain e where "e \<in> set start \<inter> ?I" "reachable_from (scenes out) e x"
      by blast
    then show ?thesis by (rule from_entry)
  next
    case False
    with x ids ord have xu: "x \<in> set (unreachable_set ord ?scs)"
      by (simp add: unreachable_set_def set_order_def)
    from False h obtain sc where noexit: "x \<noteq> ''exit''" and sc: "sc \<in> set ?scs"
      "chosen_source ord rnd ?scs x = Inr (sid sc)" "has_choices sc"
      by blast
    from sc(1) obtain i where i: "i < length ?scs" "?scs ! i = sc"
      by (auto simp: in_set_conv_nth)
    with ffr have "i < length fixed" "scene_frame ?I sc (fixed ! i)"
      by (auto simp: list_all2_conv_all_nth)
    then have fsc: "fixed ! i \<in> set fixed" "sid (fixed ! i) = sid sc" "has_choices (fixed ! i)"
      using sc(3) by (auto simp: scene_frame_def intro: has_choices_frame)
    from sc(2) have rc: "random_choice (rnd x) (ord (reachable_set ord ?scs)) = Inr (sid sc)"
      by (simp add: chosen_source_def)
    from connect_unreachable_adds [OF c xu rc fsc]
    obtain sc' where sc': "sc' \<in> set (scenes out)" "sid sc' = sid sc"
      "\<lparr>c_text = ''Explore a different path'', nextScene = Some x\<rparr> \<in> set (scene_choices sc')"
      by blast
    from rc have "sid sc \<in> set (ord (reachable_set ord ?scs))"
      by (rule random_choice_mem)
    with ord have "sid sc \<in> set (reachable_set ord ?scs)" by (simp add: set_order_def)
    with closed sc(1) obtain e where e: "e \<in> set start \<inter> ?I"
      "reachable_from (scenes out) e (sid sc)"
      by blast
    from e(2) sc'(1,2,3) have "reachable_from (scenes out) e x"
    proof (rule reachable_from.choice)
      show "nextScene \<lparr>c_text = ''Explore a different path'', nextScene = Some x\<rparr> = Some x"
        by simp
      show "x \<noteq> ''exit''" by (rule noexit)
    qed
    with e(1) show ?thesis by (rule from_entry)
  qed
  then have "\<forall>x \<in> sid ` set (scenes out).
        x \<in> set (reachable_set ord ?scs) \<or>
        (x \<noteq> ''exit'' \<and>
         (\<exists>sc \<in> set ?scs. chosen_source ord rnd ?scs x = Inr (sid sc) \<and> has_choices sc)) \<longrightarrow>
        reachable_from (scenes out) ?e x \<or>
        (''scene_intro'' \<in> ?I \<and> ''scene_1'' \<in> ?I \<and> reachable_from (scenes out) ''scene_1'' x)"
    unfolding I goal_def by blast
  with val ms show ?thesis by blast
qed

lemma example_reachable_set:
  "reachable_set remdups (scenes example_script) = [''scene_2'', ''scene_intro'', ''scene_1'']"
  by (simp add: reachable_set_def example_script_def initial_reachable_def reach_loop.simps
      expand_pass_def expand_step_def next_scene_refs_def scene_refs_def dialogue_refs_def
      choice_refs_def)

theorem validate_reachability_when_source_usable_witness:
  "set_order remdups \<and> scenes example_script \<noteq> [] \<and>
   ''scene_3'' \<in> sid ` set (scenes example_script) \<and>
   ''scene_3'' \<notin> set (reachable_set remdups (scenes example_script)) \<and>
   ''scene_3'' \<noteq> ''exit'' \<and>
   chosen_source remdups (\<lambda>_. 2) (scenes example_script) ''scene_3''
     = Inr (sid (hd (scenes example_script))) \<and>
   has_choices (hd (scenes example_script)) \<and>
   entry_id remdups (scenes example_script) = ''scene_1'' \<and>
   (\<exists>out. validate_and_fix_scene_connections remdups (\<lambda>_. 2) example_script = Inr out \<and>
      reachable_from (scenes out) ''scene_1'' ''scene_3'')"
proof -
  have o: "set_order remdups" by (simp add: set_order_def)
  have n: "scenes example_script \<noteq> []" by (simp add: example_script_def)
  have m: "''scene_3'' \<in> sid ` set (scenes example_script)" by (simp add: example_script_def)
  have u: "''scene_3'' \<notin> set (reachable_set remdups (scenes example_script))"
    unfolding example_reachable_set by simp
  have x: "''scene_3'' \<noteq> ''exit''" by simp
  have hd_in: "hd (scenes example_script) \<in> set (scenes example_script)"
    using n by (rule hd_in_set)
  have cs: "chosen_source remdups (\<lambda>_. 2) (scenes example_script) ''scene_3''
     = Inr (sid (hd (scenes example_script)))"
    unfolding chosen_source_def example_reachable_set
    by (simp add: random_choice_def example_script_def)
  have hc: "has_choices (hd (scenes example_script))"
    by (simp add: has_choices_def example_script_def)
  have e: "entry_id remdups (scenes example_script) = ''scene_1''"
    by (simp add: entry_id_def example_script_def)
  have ni: "''scene_intro'' \<notin> sid ` set (scenes example_script)"
    by (simp add: example_script_def)
  from validate_reachability_when_source_usable [OF o n, of "\<lambda>_. 2"]
  obtain out where out: "validate_and_fix_scene_connections remdups (\<lambda>_. 2) example_script = Inr out"
    and ms: "map sid (scenes out) = map sid (scenes example_script)"
    and r: "\<forall>x \<in> sid ` set (scenes out).
        x \<in> set (reachable_set remdups (scenes example_script)) \<or>
        (x \<noteq> ''exit'' \<and>
         (\<exists>sc \<in> set (scenes example_script).
            chosen_source remdups (\<lambda>_. 2) (scenes example_script) x = Inr (sid sc) \<and>
            has_choices sc)) \<longrightarrow>
        reachable_from (scenes out) (entry_id remdups (scenes example_script)) x \<or>
        (''scene_intro'' \<in> sid ` set (scenes example_script) \<and>
         ''scene_1'' \<in> sid ` set (scenes example_script) \<and>
         reachable_from (scenes out) ''scene_1'' x)"
    by (elim exE conjE) (rule that)
  have "sid ` set (scenes out) = set (map sid (scenes out))" by simp
  also have "\<dots> = set (map sid (scenes example_script))" unfolding ms ..
  also have "\<dots> = sid ` set (scenes example_script)" by simp
  finally have I: "sid ` set (scenes out) = sid ` set (scenes example_script)" .
  have m': "''scene_3'' \<in> sid ` set (scenes out)" unfolding I by (rule m)
  from hd_in have ex: "\<exists>sc \<in> set (scenes example_script).
      chosen_source remdups (\<lambda>_. 2) (scenes example_script) ''scene_3'' = Inr (sid sc) \<and>
      has_choices sc"
  proof (rule bexI [rotated])
    from cs hc show "chosen_source remdups (\<lambda>_. 2) (scenes example_script) ''scene_3''
        = Inr (sid (hd (scenes example_script))) \<and> has_choices (hd (scenes example_script))"
      by (rule conjI)
  qed
  from x ex have ante: "''scene_3'' \<in> set (reachable_set remdups (scenes example_script)) \<or>
        (''scene_3'' \<noteq> ''exit'' \<and>
         (\<exists>sc \<in> set (scenes example_script).
            chosen_source remdups (\<lambda>_. 2) (scenes example_script) ''scene_3'' = Inr (sid sc) \<and>
            has_choices sc))"
    by (intro disjI2 conjI)
  from bspec [OF r m'] ante
  have "reachable_from (scenes out) (entry_id remdups (scenes example_script)) ''scene_3'' \<or>
        (''scene_intro'' \<in> sid ` set (scenes example_script) \<and>
         ''scene_1'' \<in> sid ` set (scenes example_script) \<and>
         reachable_from (scenes out) ''scene_1'' ''scene_3'')"
    by (rule mp)
  then have "reachable_from (scenes out) ''scene_1'' ''scene_3''"
  proof (elim disjE conjE)
    assume "reachable_from (scenes out) (entry_id remdups (scenes example_script)) ''scene_3''"
    then show ?thesis unfolding e .
  next
    assume "''scene_intro'' \<in> sid ` set (scenes example_script)"
    with ni show ?thesis by (rule notE)
  qed
  with out have "\<exists>out. validate_and_fix_scene_connections remdups (\<lambda>_. 2) example_script = Inr out \<and>
      reachable_from (scenes out) ''scene_1'' ''scene_3''"
    by (intro exI conjI)
  with o n m u x cs hc e show ?thesis by (intro conjI)
qed

definition isolated_script :: script where
  "isolated_script =
     \<lparr>title = ''t'',
      scenes =
        [\<lparr>sid = ''scene_1'', background = ''b1'', characters = [], dialogue = [],
          generated_with = None\<rparr>,
         \<lparr>sid = ''scene_2'', background = ''b2'', characters = [], dialogue = [],
          generated_with = None\<rparr>]\<rparr>"

definition two_entries_script :: script where
  "two_entries_script =
     \<lparr>title = ''t'',
      scenes =
        [\<lparr>sid = ''scene_intro'', background = ''b0'', characters = [], dialogue = [],
          generated_with = None\<rparr>,
         \<lparr>sid = ''scene_1'', background = ''b1'', characters = [], dialogue = [],
          generated_with = None\<rparr>]\<rparr>"

definition exit_script :: script where
  "exit_script =
     \<lparr>title = ''t'',
      scenes =
        [\<lparr>sid = ''scene_1'', background = ''b1'', characters = [],
          dialogue =
            [\<lparr>speaker = ''Narrator'', d_text = ''a'', character = None, choices = Some []\<rparr>],
          generated_with = None\<rparr>,
         \<lparr>sid = ''exit'', background = ''b2'', characters = [], dialogue = [],
          generated_with = None\<rparr>]\<rparr>"

definition exit_out :: script where
  "exit_out =
     \<lparr>title = ''t'',
      scenes =
        [\<lparr>sid = ''scene_1'', background = ''b1'', characters = [],
          dialogue =
            [\<lparr>speaker = ''Narrator'', d_text = ''a'', character = None,
              choices = Some [\<lparr>c_text = ''Explore a different path'',
                               nextScene = Some ''exit''\<rparr>]\<rparr>],
          generated_with = None\<rparr>,
         \<lparr>sid = ''exit'', background = ''b2'', characters = [], dialogue = [],
          generated_with = None\<rparr>]\<rparr>"

lemma connect_scene_no_dialogue: "dialogue sc = [] \<Longrightarrow> connect_scene s u sc = sc"
  by (simp add: connect_scene_def)

lemma reachable_from_no_choices:
  assumes "reachable_from scs e x" "\<forall>sc \<in> set scs. scene_choices sc = []"
  shows "x = e"
  using assms by (induction rule: reachable_from.induct) auto

lemma reachable_from_exit:
  assumes "reachable_from scs e x"
  shows "x = e \<or> x \<noteq> ''exit''"
  using assms by (induction rule: reachable_from.induct) auto

text \<open>
  C2 fails as stated: in a script of two scenes without dialogue the validator finds
  \<^verbatim>\<open>scene_2\<close> unreachable, draws \<^verbatim>\<open>scene_intro\<close> or \<^verbatim>\<open>scene_1\<close> as its source, finds no
  dialogue entry with a \<^verbatim>\<open>choices\<close> list there, and returns the script as it was. When
  \<^verbatim>\<open>scene_intro\<close> and \<^verbatim>\<open>scene_1\<close> are both scenes, the validator takes both for reachable
  and connects neither. And the choice it adds towards a scene called \<^verbatim>\<open>exit\<close> is no
  edge of the graph.
\<close>

theorem validate_reachability_counterexample:
  "set_order remdups \<and> scenes isolated_script \<noteq> [] \<and>
   (\<forall>rnd. validate_and_fix_scene_connections remdups rnd isolated_script = Inr isolated_script) \<and>
   entry_id remdups (scenes isolated_script) = ''scene_1'' \<and>
   ''scene_2'' \<in> sid ` set (scenes isolated_script) \<and>
   \<not> reachable_from (scenes isolated_script) ''scene_1'' ''scene_2'' \<and>
   (\<forall>rnd. validate_and_fix_scene_connections remdups rnd two_entries_script
      = Inr two_entries_script) \<and>
   entry_id remdups (scenes two_entries_script) = ''scene_intro'' \<and>
   ''scene_1'' \<in> sid ` set (scenes two_entries_script) \<and>
   \<not> reachable_from (scenes two_entries_script) ''scene_intro'' ''scene_1'' \<and>
   validate_and_fix_scene_connections remdups (\<lambda>_. 1) exit_script = Inr exit_out \<and>
   entry_id remdups (scenes exit_script) = ''scene_1'' \<and>
   ''exit'' \<in> sid ` set (scenes exit_out) \<and>
   \<not> reachable_from (scenes exit_out) ''scene_1'' ''exit''"
proof (intro conjI allI)
  show "set_order remdups" by (simp add: set_order_def)
  show "scenes isolated_script \<noteq> []" by (simp add: isolated_script_def)
  show "validate_and_fix_scene_connections remdups rnd isolated_script = Inr isolated_script"
    for rnd
    by (simp add: validate_and_fix_scene_connections_def isolated_script_def
        next_scene_refs_def scene_refs_def initial_reachable_def reach_loop.simps
        expand_pass_def random_choice_def connect_scene_no_dialogue)
  show "entry_id remdups (scenes isolated_script) = ''scene_1''"
    by (simp add: entry_id_def isolated_script_def)
  show "''scene_2'' \<in> sid ` set (scenes isolated_script)"
    by (simp add: isolated_script_def)
  show "\<not> reachable_from (scenes isolated_script) ''scene_1'' ''scene_2''"
  proof
    assume "reachable_from (scenes isolated_script) ''scene_1'' ''scene_2''"
    then have "''scene_2'' = ''scene_1''"
      by (rule reachable_from_no_choices) (simp add: isolated_script_def scene_choices_def)
    then show False by simp
  qed
  show "validate_and_fix_scene_connections remdups rnd two_entries_script
      = Inr two_entries_script"
    for rnd
    by (simp add: validate_and_fix_scene_connections_def two_entries_script_def
        next_scene_refs_def scene_refs_def initial_reachable_def reach_loop.simps
        expand_pass_def)
  show "entry_id remdups (scenes two_entries_script) = ''scene_intro''"
    by (simp add: entry_id_def two_entries_script_def)
  show "''scene_1'' \<in> sid ` set (scenes two_entries_script)"
    by (simp add: two_entries_script_def)
  show "\<not> reachable_from (scenes two_entries_script) ''scene_intro'' ''scene_1''"
  proof
    assume "reachable_from (scenes two_entries_script) ''scene_intro'' ''scene_1''"
    then have "''scene_1'' = ''scene_intro''"
      by (rule reachable_from_no_choices) (simp add: two_entries_script_def scene_choices_def)
    then show False by simp
  qed
  show "validate_and_fix_scene_connections remdups (\<lambda>_. 1) exit_script = Inr exit_out"
    by (simp add: validate_and_fix_scene_connections_def exit_script_def exit_out_def
        next_scene_refs_def scene_refs_def dialogue_refs_def initial_reachable_def
        reach_loop.simps expand_pass_def random_choice_def connect_scene_def)
  show "entry_id remdups (scenes exit_script) = ''scene_1''"
    by (simp add: entry_id_def exit_script_def)
  show "''exit'' \<in> sid ` set (scenes exit_out)"
    by (simp add: exit_out_def)
  show "\<not> reachable_from (scenes exit_out) ''scene_1'' ''exit''"
  proof
    assume "reachable_from (scenes exit_out) ''scene_1'' ''exit''"
    from reachable_from_exit [OF this] show False by simp
  qed
qed

section \<open>Outlines, book analysis and the placeholder scene\<close>

text \<open>
  A scene outline and the book analysis are dictionaries read with \<^verbatim>\<open>.get\<close>: a key
  read with a default is an optional field, except that a list read with the default
  \<^verbatim>\<open>[]\<close> is a plain list (a missing list and an empty one behave alike). The scene
  functions read of the book analysis its character list only, and of a character only
  \<^verbatim>\<open>id\<close> and \<^verbatim>\<open>name\<close> decide anything; the other keys feed the prompt.
\<close>

record scene_outline =
  o_id :: "string option"
  o_description :: "string option"
  o_characters :: "string list"
  o_setting :: "string option"
  o_atmosphere :: "string option"
  dialogue_count :: "int option"
  connects_to :: "string list"

record book_character =
  bc_id :: "string option"
  bc_name :: "string option"

record book_metadata =
  md_title :: "string option"

record book_analysis =
  metadata :: "book_metadata option"
  ba_characters :: "book_character list"
  ba_tone :: "string option"

text \<open>
  Python's \<^verbatim>\<open>str.lower\<close> belongs to the language, not to the program: the functions
  that compare names take the case mapping as their parameter \<open>lower\<close>. On strings of
  ASCII characters it is \<open>ascii_lower\<close>, which the examples use.
\<close>

definition char_lower :: "char \<Rightarrow> char" where
  "char_lower c =
     (let n = (of_char c :: nat) in if 65 \<le> n \<and> n \<le> 90 then char_of (n + 32) else c)"

definition ascii_lower :: "string \<Rightarrow> string" where
  "ascii_lower s = map char_lower s"

text \<open>
  The search \<^verbatim>\<open>next((c for c in characters if c.get("id") == char_id or
  c.get("name").lower() == char_id.lower()), None)\<close>: a character with another id and no
  name raises \<^verbatim>\<open>AttributeError\<close> (\<^verbatim>\<open>None\<close> has no \<^verbatim>\<open>lower\<close>).
\<close>

fun find_character :: "(string \<Rightarrow> string) \<Rightarrow> book_character list \<Rightarrow> string \<Rightarrow> error + book_character option" where
  "find_character lower [] char_id = Inr None"
| "find_character lower (c # cs) char_id =
     (if bc_id c = Some char_id then Inr (Some c)
      else (case bc_name c of
              None \<Rightarrow> Inl AttributeError
            | Some name \<Rightarrow>
                if lower name = lower char_id then Inr (Some c)
                else find_character lower cs char_id))"

text \<open>
  \<^verbatim>\<open>book_analysis.get("characters", [])\<close> is evaluated once for each character of the
  outline, and raises when the book analysis is \<^verbatim>\<open>None\<close> (the cache starts with none).
\<close>

definition lookup_character :: "(string \<Rightarrow> string) \<Rightarrow> book_analysis option \<Rightarrow> string \<Rightarrow> error + book_character option" where
  "lookup_character lower book char_id =
     (case book of
        None \<Rightarrow> Inl AttributeError
      | Some b \<Rightarrow> find_character lower (ba_characters b) char_id)"

definition placeholder_character :: "string \<Rightarrow> book_character \<Rightarrow> scene_character" where
  "placeholder_character char_id char =
     \<lparr>ch_id = (case bc_id char of None \<Rightarrow> char_id | Some i \<Rightarrow> i),
      image = ''A character representing '' @
        (case bc_name char of None \<Rightarrow> ''a person'' | Some n \<Rightarrow> n)\<rparr>"

fun placeholder_characters :: "(string \<Rightarrow> string) \<Rightarrow> book_analysis option \<Rightarrow> string list \<Rightarrow> error + scene_character list" where
  "placeholder_characters lower book [] = Inr []"
| "placeholder_characters lower book (char_id # ids) =
     (case lookup_character lower book char_id of
        Inl e \<Rightarrow> Inl e
      | Inr found \<Rightarrow>
          (case placeholder_characters lower book ids of
             Inl e \<Rightarrow> Inl e
           | Inr rest \<Rightarrow>
               (case found of
                  None \<Rightarrow> Inr rest
                | Some char \<Rightarrow> Inr (placeholder_character char_id char # rest))))"

definition connection_choices :: "string list \<Rightarrow> choice list" where
  "connection_choices connections =
     (let choices = map (\<lambda>conn. \<lparr>c_text = ''Continue to '' @ conn, nextScene = Some conn\<rparr>)
                        connections
      in if choices = [] then [\<lparr>c_text = ''Continue'', nextScene = Some ''scene_next''\<rparr>]
         else choices)"

definition create_placeholder_scene ::
  "(string \<Rightarrow> string) \<Rightarrow> string \<Rightarrow> scene_outline \<Rightarrow> book_analysis option \<Rightarrow> error + scene" where
  "create_placeholder_scene lower scene_id outline book =
     (case placeholder_characters lower book (o_characters outline) of
        Inl e \<Rightarrow> Inl e
      | Inr found \<Rightarrow>
          (let characters =
                 (if found = []
                  then [\<lparr>ch_id = ''character'', image = ''A person relevant to this scene''\<rparr>]
                  else found);
               description =
                 (case o_description outline of None \<Rightarrow> ''A scene in the story'' | Some d \<Rightarrow> d);
               setting =
                 (case o_setting outline of None \<Rightarrow> ''An important location'' | Some s \<Rightarrow> s);
               atmosphere =
                 (case o_atmosphere outline of None \<Rightarrow> ''Creates a specific mood'' | Some a \<Rightarrow> a);
               narration =
                 [\<lparr>speaker = ''Narrator'', d_text = setting @ ''. '' @ atmosphere @ ''.'',
                    character = None, choices = None\<rparr>,
                  \<lparr>speaker = ''Narrator'', d_text = description,
                    character = None, choices = None\<rparr>];
               character_line =
                 (case characters of
                    [] \<Rightarrow> []
                  | char # _ \<Rightarrow>
                      [\<lparr>speaker = ch_id char,
                        d_text = ''We need to proceed carefully in this situation.'',
                        character = Some (ch_id char), choices = None\<rparr>])
           in Inr \<lparr>sid = scene_id, background = setting, characters = characters,
                   dialogue = narration @ character_line @
                     [\<lparr>speaker = ''Narrator'', d_text = ''What will you do next?'',
                       character = None,
                       choices = Some (connection_choices (connects_to outline))\<rparr>],
                   generated_with = None\<rparr>))"


definition setting_of :: "scene_outline \<Rightarrow> string" where
  "setting_of outline =
     (case o_setting outline of None \<Rightarrow> ''An important location'' | Some s \<Rightarrow> s)"

definition atmosphere_of :: "scene_outline \<Rightarrow> string" where
  "atmosphere_of outline =
     (case o_atmosphere outline of None \<Rightarrow> ''Creates a specific mood'' | Some a \<Rightarrow> a)"

definition description_of :: "scene_outline \<Rightarrow> string" where
  "description_of outline =
     (case o_description outline of None \<Rightarrow> ''A scene in the story'' | Some d \<Rightarrow> d)"

lemma create_placeholder_scene_shape:
  assumes "create_placeholder_scene lower scene_id outline book = Inr sc"
  shows "\<exists>found. placeholder_characters lower book (o_characters outline) = Inr found \<and>
     characters sc =
       (if found = [] then [\<lparr>ch_id = ''character'', image = ''A person relevant to this scene''\<rparr>]
        else found) \<and>
     sid sc = scene_id \<and> background sc = setting_of outline \<and> generated_with sc = None \<and>
     dialogue sc =
       [\<lparr>speaker = ''Narrator'',
          d_text = setting_of outline @ ''. '' @ atmosphere_of outline @ ''.'',
          character = None, choices = None\<rparr>,
        \<lparr>speaker = ''Narrator'', d_text = description_of outline,
          character = None, choices = None\<rparr>,
        \<lparr>speaker = ch_id (hd (characters sc)),
          d_text = ''We need to proceed carefully in this situation.'',
          character = Some (ch_id (hd (characters sc))), choices = None\<rparr>,
        \<lparr>speaker = ''Narrator'', d_text = ''What will you do next?'', character = None,
          choices = Some (connection_choices (connects_to outline))\<rparr>]"
proof -
  from assms obtain found where f: "placeholder_characters lower book (o_characters outline) = Inr found"
    by (auto simp: create_placeholder_scene_def split: sum.splits)
  show ?thesis
  proof (cases found)
    case Nil
    with f assms show ?thesis
      by (auto simp: create_placeholder_scene_def setting_of_def atmosphere_of_def
          description_of_def Let_def)
  next
    case (Cons ch rest)
    with f assms show ?thesis
      by (auto simp: create_placeholder_scene_def setting_of_def atmosphere_of_def
          description_of_def Let_def)
  qed
qed

lemma placeholder_characters_found:
  assumes "placeholder_characters lower book ids = Inr found"
  shows "(\<forall>char_id \<in> set ids. \<exists>r. lookup_character lower book char_id = Inr r) \<and>
     found = List.map_filter
       (\<lambda>char_id. case lookup_character lower book char_id of
            Inr (Some char) \<Rightarrow> Some (placeholder_character char_id char)
          | _ \<Rightarrow> None) ids"
  using assms
proof (induction ids arbitrary: found)
  case Nil
  then show ?case by (simp add: List.map_filter_simps)
next
  case (Cons char_id ids)
  from Cons.prems obtain r rest where r: "lookup_character lower book char_id = Inr r"
    and rest: "placeholder_characters lower book ids = Inr rest"
    by (auto split: sum.splits)
  from Cons.IH [OF rest] r rest Cons.prems show ?case
    by (cases r) (auto simp: List.map_filter_simps)
qed

lemma map_filter_first:
  assumes "\<forall>i \<in> set pre. f i = None" "f x = Some y"
  shows "hd (List.map_filter f (pre @ x # post)) = y"
  using assms by (induction pre) (simp_all add: List.map_filter_simps)

text \<open>
  C4, as amended. Whenever \<^verbatim>\<open>create_placeholder_scene\<close> returns, every lookup of an
  outline character in the book analysis returned, and the scene has the given id, the
  outline's setting as background (\<^verbatim>\<open>"An important location"\<close> when the outline has
  none), as characters the outline characters found in the book analysis, in the
  outline's order, or the one generic \<^verbatim>\<open>character\<close> when none was found, and exactly
  four dialogue entries: the narrator's line on setting and atmosphere, the narrator's
  line with the description, one character line, and the narrator's closing entry with
  the choices. The character line is always there: its speaker is the first outline
  character found in the book analysis, under the id the book analysis gives it, or the
  generic \<^verbatim>\<open>character\<close> when none was found. The choices are one per \<^verbatim>\<open>connects_to\<close>
  target, or the single \<^verbatim>\<open>Continue\<close> to \<^verbatim>\<open>scene_next\<close> when there is no target.
\<close>

theorem placeholder_scene_structure:
  assumes "create_placeholder_scene lower scene_id outline book = Inr sc"
  shows "sid sc = scene_id \<and> background sc = setting_of outline \<and>
     (\<forall>char_id \<in> set (o_characters outline).
        \<exists>r. lookup_character lower book char_id = Inr r) \<and>
     characters sc =
       (let found = List.map_filter
              (\<lambda>char_id. case lookup_character lower book char_id of
                   Inr (Some char) \<Rightarrow> Some (placeholder_character char_id char)
                 | _ \<Rightarrow> None) (o_characters outline)
        in if found = []
           then [\<lparr>ch_id = ''character'', image = ''A person relevant to this scene''\<rparr>]
           else found) \<and>
     (\<forall>pre char_id post char.
        o_characters outline = pre @ char_id # post \<and>
        (\<forall>i \<in> set pre. lookup_character lower book i = Inr None) \<and>
        lookup_character lower book char_id = Inr (Some char) \<longrightarrow>
        hd (characters sc) =
          \<lparr>ch_id = (case bc_id char of None \<Rightarrow> char_id | Some i \<Rightarrow> i),
            image = ''A character representing '' @
              (case bc_name char of None \<Rightarrow> ''a person'' | Some n \<Rightarrow> n)\<rparr>) \<and>
     dialogue sc =
       [\<lparr>speaker = ''Narrator'',
          d_text = setting_of outline @ ''. '' @ atmosphere_of outline @ ''.'',
          character = None, choices = None\<rparr>,
        \<lparr>speaker = ''Narrator'', d_text = description_of outline,
          character = None, choices = None\<rparr>,
        \<lparr>speaker = ch_id (hd (characters sc)),
          d_text = ''We need to proceed carefully in this situation.'',
          character = Some (ch_id (hd (characters sc))), choices = None\<rparr>,
        \<lparr>speaker = ''Narrator'', d_text = ''What will you do next?'', character = None,
          choices = Some
            (if connects_to outline = []
             then [\<lparr>c_text = ''Continue'', nextScene = Some ''scene_next''\<rparr>]
             else map (\<lambda>conn. \<lparr>c_text = ''Continue to '' @ conn, nextScene = Some conn\<rparr>)
                    (connects_to outline))\<rparr>]"
proof -
  let ?f = "\<lambda>char_id. case lookup_character lower book char_id of
       Inr (Some char) \<Rightarrow> Some (placeholder_character char_id char)
     | _ \<Rightarrow> None"
  from create_placeholder_scene_shape [OF assms]
  obtain found where f: "placeholder_characters lower book (o_characters outline) = Inr found"
    and ch: "characters sc =
       (if found = [] then [\<lparr>ch_id = ''character'', image = ''A person relevant to this scene''\<rparr>]
        else found)"
    and id: "sid sc = scene_id"
    and bg: "background sc = setting_of outline"
    and dl: "dialogue sc =
       [\<lparr>speaker = ''Narrator'',
          d_text = setting_of outline @ ''. '' @ atmosphere_of outline @ ''.'',
          character = None, choices = None\<rparr>,
        \<lparr>speaker = ''Narrator'', d_text = description_of outline,
          character = None, choices = None\<rparr>,
        \<lparr>speaker = ch_id (hd (characters sc)),
          d_text = ''We need to proceed carefully in this situation.'',
          character = Some (ch_id (hd (characters sc))), choices = None\<rparr>,
        \<lparr>speaker = ''Narrator'', d_text = ''What will you do next?'', character = None,
          choices = Some (connection_choices (connects_to outline))\<rparr>]"
    by blast
  have cc: "connection_choices (connects_to outline) =
      (if connects_to outline = []
       then [\<lparr>c_text = ''Continue'', nextScene = Some ''scene_next''\<rparr>]
       else map (\<lambda>conn. \<lparr>c_text = ''Continue to '' @ conn, nextScene = Some conn\<rparr>)
              (connects_to outline))"
    by (simp add: connection_choices_def)
  from placeholder_characters_found [OF f]
  have lk: "\<forall>char_id \<in> set (o_characters outline).
        \<exists>r. lookup_character lower book char_id = Inr r"
    and fd: "found = List.map_filter ?f (o_characters outline)"
    by blast+
  from ch fd have chs: "characters sc =
       (let found = List.map_filter ?f (o_characters outline)
        in if found = []
           then [\<lparr>ch_id = ''character'', image = ''A person relevant to this scene''\<rparr>]
           else found)"
    by (simp add: Let_def)
  have first: "\<forall>pre char_id post char.
        o_characters outline = pre @ char_id # post \<and>
        (\<forall>i \<in> set pre. lookup_character lower book i = Inr None) \<and>
        lookup_character lower book char_id = Inr (Some char) \<longrightarrow>
        hd (characters sc) =
          \<lparr>ch_id = (case bc_id char of None \<Rightarrow> char_id | Some i \<Rightarrow> i),
            image = ''A character representing '' @
              (case bc_name char of None \<Rightarrow> ''a person'' | Some n \<Rightarrow> n)\<rparr>"
  proof (intro allI impI, elim conjE)
    fix pre char_id post char
    assume o: "o_characters outline = pre @ char_id # post"
      and pre: "\<forall>i \<in> set pre. lookup_character lower book i = Inr None"
      and c: "lookup_character lower book char_id = Inr (Some char)"
    from pre have 1: "\<forall>i \<in> set pre. ?f i = None" by simp
    from c have 2: "?f char_id = Some (placeholder_character char_id char)" by simp
    from map_filter_first [of pre ?f, OF 1 2, of post] fd o
    have h: "hd found = placeholder_character char_id char" by simp
    have "found \<noteq> []"
      unfolding fd o using 2 by (simp add: List.map_filter_def)
    with ch h show "hd (characters sc) =
          \<lparr>ch_id = (case bc_id char of None \<Rightarrow> char_id | Some i \<Rightarrow> i),
            image = ''A character representing '' @
              (case bc_name char of None \<Rightarrow> ''a person'' | Some n \<Rightarrow> n)\<rparr>"
      by (simp add: placeholder_character_def)
  qed
  from id bg lk chs first dl show ?thesis unfolding cc by (intro conjI)
qed

definition bare_outline :: scene_outline where
  "bare_outline =
     \<lparr>o_id = Some ''scene_x'', o_description = Some ''Nothing happens'', o_characters = [],
      o_setting = Some ''A hall'', o_atmosphere = Some ''Quiet'', dialogue_count = None,
      connects_to = []\<rparr>"

definition bare_placeholder :: scene where
  "bare_placeholder =
     \<lparr>sid = ''scene_x'', background = ''A hall'',
      characters = [\<lparr>ch_id = ''character'', image = ''A person relevant to this scene''\<rparr>],
      dialogue =
        [\<lparr>speaker = ''Narrator'', d_text = ''A hall. Quiet.'', character = None, choices = None\<rparr>,
         \<lparr>speaker = ''Narrator'', d_text = ''Nothing happens'', character = None,
           choices = None\<rparr>,
         \<lparr>speaker = ''character'',
           d_text = ''We need to proceed carefully in this situation.'',
           character = Some ''character'', choices = None\<rparr>,
         \<lparr>speaker = ''Narrator'', d_text = ''What will you do next?'', character = None,
           choices = Some [\<lparr>c_text = ''Continue'', nextScene = Some ''scene_next''\<rparr>]\<rparr>],
      generated_with = None\<rparr>"

lemma bare_placeholder_eval:
  "create_placeholder_scene lower ''scene_x'' bare_outline None = Inr bare_placeholder"
  by (simp add: create_placeholder_scene_def bare_outline_def bare_placeholder_def
      connection_choices_def)

definition holmes_book :: book_analysis where
  "holmes_book =
     \<lparr>metadata = Some \<lparr>md_title = Some ''The Speckled Band''\<rparr>,
      ba_characters = [\<lparr>bc_id = Some ''holmes'', bc_name = Some ''Sherlock Holmes''\<rparr>],
      ba_tone = None\<rparr>"

definition holmes_outline :: scene_outline where
  "holmes_outline =
     \<lparr>o_id = Some ''scene_x'', o_description = Some ''A visitor arrives'',
      o_characters = [''Watson'', ''holmes''],
      o_setting = Some ''Baker Street'', o_atmosphere = Some ''Foggy'', dialogue_count = None,
      connects_to = [''scene_2a'', ''scene_2b'']\<rparr>"

definition holmes_placeholder :: scene where
  "holmes_placeholder =
     \<lparr>sid = ''scene_x'', background = ''Baker Street'',
      characters = [\<lparr>ch_id = ''holmes'', image = ''A character representing Sherlock Holmes''\<rparr>],
      dialogue =
        [\<lparr>speaker = ''Narrator'', d_text = ''Baker Street. Foggy.'', character = None,
           choices = None\<rparr>,
         \<lparr>speaker = ''Narrator'', d_text = ''A visitor arrives'', character = None,
           choices = None\<rparr>,
         \<lparr>speaker = ''holmes'',
           d_text = ''We need to proceed carefully in this situation.'',
           character = Some ''holmes'', choices = None\<rparr>,
         \<lparr>speaker = ''Narrator'', d_text = ''What will you do next?'', character = None,
           choices = Some [\<lparr>c_text = ''Continue to scene_2a'', nextScene = Some ''scene_2a''\<rparr>,
             \<lparr>c_text = ''Continue to scene_2b'', nextScene = Some ''scene_2b''\<rparr>]\<rparr>],
      generated_with = None\<rparr>"

lemma lower_watson: "ascii_lower ''Sherlock Holmes'' \<noteq> ascii_lower ''Watson''"
  by (simp add: ascii_lower_def)

lemma holmes_lookup:
  "lookup_character ascii_lower (Some holmes_book) ''Watson'' = Inr None"
  "lookup_character ascii_lower (Some holmes_book) ''holmes'' =
     Inr (Some \<lparr>bc_id = Some ''holmes'', bc_name = Some ''Sherlock Holmes''\<rparr>)"
  using lower_watson by (simp_all add: lookup_character_def holmes_book_def)

lemma holmes_characters:
  "placeholder_characters ascii_lower (Some holmes_book) (o_characters holmes_outline)
     = Inr [\<lparr>ch_id = ''holmes'', image = ''A character representing Sherlock Holmes''\<rparr>]"
  by (simp add: holmes_outline_def holmes_lookup placeholder_character_def)

lemma holmes_placeholder_eval:
  "create_placeholder_scene ascii_lower ''scene_x'' holmes_outline (Some holmes_book)
     = Inr holmes_placeholder"
  unfolding create_placeholder_scene_def holmes_characters
  by (simp add: holmes_outline_def holmes_placeholder_def connection_choices_def)

theorem placeholder_scene_structure_witness:
  "create_placeholder_scene ascii_lower ''scene_x'' holmes_outline (Some holmes_book)
     = Inr holmes_placeholder \<and>
   o_characters holmes_outline = [''Watson'', ''holmes''] \<and>
   lookup_character ascii_lower (Some holmes_book) ''Watson'' = Inr None \<and>
   lookup_character ascii_lower (Some holmes_book) ''holmes'' =
     Inr (Some \<lparr>bc_id = Some ''holmes'', bc_name = Some ''Sherlock Holmes''\<rparr>) \<and>
   background holmes_placeholder = ''Baker Street'' \<and>
   hd (characters holmes_placeholder) =
     \<lparr>ch_id = ''holmes'', image = ''A character representing Sherlock Holmes''\<rparr> \<and>
   map speaker (dialogue holmes_placeholder) =
     [''Narrator'', ''Narrator'', ''holmes'', ''Narrator''] \<and>
   choices (last (dialogue holmes_placeholder)) =
     Some [\<lparr>c_text = ''Continue to scene_2a'', nextScene = Some ''scene_2a''\<rparr>,
           \<lparr>c_text = ''Continue to scene_2b'', nextScene = Some ''scene_2b''\<rparr>]"
proof -
  note t = placeholder_scene_structure [OF holmes_placeholder_eval]
  have o: "o_characters holmes_outline = [''Watson'', ''holmes'']"
    by (simp add: holmes_outline_def)
  from t have bg: "background holmes_placeholder = ''Baker Street''"
    by (simp add: setting_of_def holmes_outline_def)
  from t have "o_characters holmes_outline = [''Watson''] @ ''holmes'' # [] \<and>
        (\<forall>i \<in> set [''Watson'']. lookup_character ascii_lower (Some holmes_book) i = Inr None) \<and>
        lookup_character ascii_lower (Some holmes_book) ''holmes'' =
          Inr (Some \<lparr>bc_id = Some ''holmes'', bc_name = Some ''Sherlock Holmes''\<rparr>) \<longrightarrow>
        hd (characters holmes_placeholder) =
          \<lparr>ch_id = (case bc_id \<lparr>bc_id = Some ''holmes'', bc_name = Some ''Sherlock Holmes''\<rparr>
                     of None \<Rightarrow> ''holmes'' | Some i \<Rightarrow> i),
            image = ''A character representing '' @
              (case bc_name \<lparr>bc_id = Some ''holmes'', bc_name = Some ''Sherlock Holmes''\<rparr>
               of None \<Rightarrow> ''a person'' | Some n \<Rightarrow> n)\<rparr>"
    by blast
  with o holmes_lookup
  have h: "hd (characters holmes_placeholder) =
     \<lparr>ch_id = ''holmes'', image = ''A character representing Sherlock Holmes''\<rparr>"
    by simp
  from t have d: "dialogue holmes_placeholder =
       [\<lparr>speaker = ''Narrator'',
          d_text = setting_of holmes_outline @ ''. '' @ atmosphere_of holmes_outline @ ''.'',
          character = None, choices = None\<rparr>,
        \<lparr>speaker = ''Narrator'', d_text = description_of holmes_outline,
          character = None, choices = None\<rparr>,
        \<lparr>speaker = ch_id (hd (characters holmes_placeholder)),
          d_text = ''We need to proceed carefully in this situation.'',
          character = Some (ch_id (hd (characters holmes_placeholder))), choices = None\<rparr>,
        \<lparr>speaker = ''Narrator'', d_text = ''What will you do next?'', character = None,
          choices = Some
            (if connects_to holmes_outline = []
             then [\<lparr>c_text = ''Continue'', nextScene = Some ''scene_next''\<rparr>]
             else map (\<lambda>conn. \<lparr>c_text = ''Continue to '' @ conn, nextScene = Some conn\<rparr>)
                    (connects_to holmes_outline))\<rparr>]"
    by blast
  have sp: "map speaker (dialogue holmes_placeholder) =
     [''Narrator'', ''Narrator'', ''holmes'', ''Narrator'']"
    unfolding d h by simp
  have ch: "choices (last (dialogue holmes_placeholder)) =
     Some [\<lparr>c_text = ''Continue to scene_2a'', nextScene = Some ''scene_2a''\<rparr>,
           \<lparr>c_text = ''Continue to scene_2b'', nextScene = Some ''scene_2b''\<rparr>]"
    unfolding d by (simp add: holmes_outline_def)
  from holmes_placeholder_eval o holmes_lookup bg h sp ch show ?thesis by (intro conjI)
qed

text \<open>
  C4 fails as stated: an outline with no character attached still gets the character
  line, spoken by the generic \<^verbatim>\<open>character\<close> that the function adds when it found none.
\<close>

theorem placeholder_character_line_counterexample:
  "o_characters bare_outline = [] \<and>
   create_placeholder_scene ascii_lower ''scene_x'' bare_outline None = Inr bare_placeholder \<and>
   map speaker (dialogue bare_placeholder) =
     [''Narrator'', ''Narrator'', ''character'', ''Narrator'']"
  using bare_placeholder_eval by (simp add: bare_outline_def bare_placeholder_def)

lemma lookup_character_book:
  assumes "map_option ba_characters book1 = map_option ba_characters book2"
  shows "lookup_character lower book1 char_id = lookup_character lower book2 char_id"
  using assms by (cases book1; cases book2) (simp_all add: lookup_character_def)

lemma placeholder_characters_book:
  assumes "map_option ba_characters book1 = map_option ba_characters book2"
  shows "placeholder_characters lower book1 ids = placeholder_characters lower book2 ids"
proof (induction ids)
  case Nil
  show ?case by simp
next
  case (Cons char_id ids)
  show ?case
    unfolding placeholder_characters.simps Cons.IH
      lookup_character_book [OF assms, of lower char_id] ..
qed

text \<open>
  C9. Two calls of \<^verbatim>\<open>create_placeholder_scene\<close> with the same scene id, the same
  outline and the same book analysis give the same result, scene or exception. Of the
  book analysis only the character list is read, so the calls agree as soon as the
  two book analyses agree on it; the function reads no cache and draws no random
  number.
\<close>

theorem create_placeholder_scene_deterministic:
  assumes "scene_id1 = scene_id2" and "outline1 = outline2"
    and "map_option ba_characters book1 = map_option ba_characters book2"
  shows "create_placeholder_scene lower scene_id1 outline1 book1 =
         create_placeholder_scene lower scene_id2 outline2 book2"
  unfolding create_placeholder_scene_def assms(1,2)
    placeholder_characters_book [OF assms(3), of lower "o_characters outline2"] ..

theorem create_placeholder_scene_deterministic_witness:
  "''scene_x'' = ''scene_x'' \<and> bare_outline = bare_outline \<and>
   map_option ba_characters (Some holmes_book) =
     map_option ba_characters (Some (holmes_book\<lparr>ba_tone := Some ''dark''\<rparr>)) \<and>
   create_placeholder_scene ascii_lower ''scene_x'' bare_outline (Some holmes_book) =
   create_placeholder_scene ascii_lower ''scene_x'' bare_outline (Some (holmes_book\<lparr>ba_tone := Some ''dark''\<rparr>))"
proof -
  have b: "map_option ba_characters (Some holmes_book) =
     map_option ba_characters (Some (holmes_book\<lparr>ba_tone := Some ''dark''\<rparr>))"
    by simp
  from create_placeholder_scene_deterministic [OF refl refl b, of ascii_lower "''scene_x''" bare_outline] b
  show ?thesis by simp
qed

section \<open>Outline Planner\<close>

text \<open>
  The text backend is outside the program. What a call of it leads to is a parameter of
  the functions that use it:
  \<^item> \<open>Backend_error\<close>: configuring the model or generating raised, or the response has no
    text;
  \<^item> \<open>Json v\<close>: \<^verbatim>\<open>json.loads\<close> of the response text returned \<open>v\<close>;
  \<^item> \<open>Repaired_json v\<close>: \<^verbatim>\<open>json.loads\<close> raised \<^verbatim>\<open>JSONDecodeError\<close>,
    \<^verbatim>\<open>attempt_json_repair\<close> changed the text, and \<^verbatim>\<open>json.loads\<close> of the new text
    returned \<open>v\<close>;
  \<^item> \<open>Unparseable\<close>: neither text could be parsed.
\<close>

datatype 'a reply = Backend_error | Json 'a | Repaired_json 'a | Unparseable

text \<open>
  A parsed outline is a dictionary with or without a \<^verbatim>\<open>scenes\<close> list, or a JSON value
  that is no dictionary.
\<close>

datatype planned = Not_an_object | Outline "scene_outline list option"

definition fallback_outline :: planned where
  "fallback_outline =
     Outline (Some
       [\<lparr>o_id = Some ''scene_1'',
         o_description = Some ''Introduction to the story and main characters'',
         o_characters = [''protagonist''],
         o_setting = Some ''The main setting of the story'',
         o_atmosphere = Some ''Establishes the tone of the narrative'',
         dialogue_count = Some 8,
         connects_to = [''scene_2a'', ''scene_2b'']\<rparr>,
        \<lparr>o_id = Some ''scene_2a'',
         o_description = Some ''The protagonist takes an active approach'',
         o_characters = [''protagonist'', ''supporting''],
         o_setting = Some ''A location that presents challenges'',
         o_atmosphere = Some ''Tense and action-oriented'',
         dialogue_count = Some 7,
         connects_to = [''scene_3'']\<rparr>])"

subsection \<open>The prompt\<close>

text \<open>
  The planner reads the book analysis as the JSON value it is, before its \<^verbatim>\<open>try\<close>: what
  it reads may be of any type, and a read that does not fit raises. So the planner's
  view of the book analysis is a JSON dictionary. (The scene functions below read the
  character list only, with the typed view \<open>book_analysis\<close>.)
\<close>

datatype json =
  JNull | JBool bool | JNum int | JStr string | JList "json list" | JDict "(string \<times> json) list"

text \<open>\<^verbatim>\<open>d.get(k, dflt)\<close> on a dictionary.\<close>

definition get_default :: "(string \<times> json) list \<Rightarrow> string \<Rightarrow> json \<Rightarrow> json" where
  "get_default d k dflt = (case map_of d k of None \<Rightarrow> dflt | Some v \<Rightarrow> v)"

text \<open>
  The elements that \<^verbatim>\<open>v[:n]\<close> yields. A list and a string can be sliced (a string
  yields its characters, each a string); \<^verbatim>\<open>None\<close>, a truth value and a number raise
  \<^verbatim>\<open>TypeError\<close>, and so does a dictionary (\<^verbatim>\<open>KeyError\<close> from Python 3.12 on).
\<close>

definition py_slice :: "nat \<Rightarrow> json \<Rightarrow> error + json list" where
  "py_slice n v =
     (case v of
        JList xs \<Rightarrow> Inr (take n xs)
      | JStr s \<Rightarrow> Inr (map (\<lambda>ch. JStr [ch]) (take n s))
      | _ \<Rightarrow> Inl TypeError)"

text \<open>
  The loop \<^verbatim>\<open>for char in characters[:7]\<close> calls \<^verbatim>\<open>char.get\<close>: every element has to be a
  dictionary.
\<close>

fun character_info :: "json list \<Rightarrow> error + unit" where
  "character_info [] = Inr ()"
| "character_info (JDict char # rest) = character_info rest"
| "character_info (other # rest) = Inl AttributeError"

text \<open>
  The loop over \<^verbatim>\<open>branching_points[:5]\<close> calls \<^verbatim>\<open>bp.get("options", [])\<close> and iterates
  over the options: every branching point has to be a dictionary, and its options a
  list, a string or a dictionary.
\<close>

fun branching_info :: "json list \<Rightarrow> error + unit" where
  "branching_info [] = Inr ()"
| "branching_info (JDict bp # rest) =
     (case get_default bp ''options'' (JList []) of
        JList opts \<Rightarrow> branching_info rest
      | JStr opts \<Rightarrow> branching_info rest
      | JDict opts \<Rightarrow> branching_info rest
      | other \<Rightarrow> Inl TypeError)"
| "branching_info (other # rest) = Inl AttributeError"

text \<open>\<^verbatim>\<open>', '.join(v[:n])\<close>: every element of the slice has to be a string.\<close>

definition joined :: "nat \<Rightarrow> json \<Rightarrow> error + unit" where
  "joined n v =
     (case py_slice n v of
        Inl e \<Rightarrow> Inl e
      | Inr xs \<Rightarrow> if list_all (\<lambda>x. case x of JStr s \<Rightarrow> True | _ \<Rightarrow> False) xs
                  then Inr () else Inl TypeError)"

text \<open>\<^verbatim>\<open>book_analysis.get("plot", {}).get(\<dots>)\<close>: the plot has to be a dictionary.\<close>

definition read_plot :: "(string \<times> json) list \<Rightarrow> error + (string \<times> json) list" where
  "read_plot book =
     (case get_default book ''plot'' (JDict []) of
        JDict plot \<Rightarrow> Inr plot
      | other \<Rightarrow> Inl AttributeError)"

text \<open>
  All the reads made before the \<^verbatim>\<open>try\<close>, in the order of the source: the characters,
  the plot, the branching points, and then, in the prompt,
  \<^verbatim>\<open>book_analysis['metadata'].get('title', \<dots>)\<close>, the key points and the themes. The
  text of the prompt is not modelled, only whether building it raises.
\<close>

definition outline_prompt :: "(string \<times> json) list \<Rightarrow> error + unit" where
  "outline_prompt book =
     (case py_slice 7 (get_default book ''characters'' (JList [])) of
        Inl e \<Rightarrow> Inl e
      | Inr chars \<Rightarrow>
     (case character_info chars of
        Inl e \<Rightarrow> Inl e
      | Inr u1 \<Rightarrow>
     (case read_plot book of
        Inl e \<Rightarrow> Inl e
      | Inr plot \<Rightarrow>
     (case py_slice 5 (get_default plot ''branching_points'' (JList [])) of
        Inl e \<Rightarrow> Inl e
      | Inr bps \<Rightarrow>
     (case branching_info bps of
        Inl e \<Rightarrow> Inl e
      | Inr u2 \<Rightarrow>
     (case map_of book ''metadata'' of
        None \<Rightarrow> Inl KeyError
      | Some (JDict md) \<Rightarrow>
          (case joined 8 (get_default plot ''key_points'' (JList [])) of
             Inl e \<Rightarrow> Inl e
           | Inr u3 \<Rightarrow> joined 3 (get_default book ''themes'' (JList [JStr ''adventure''])))
      | Some other \<Rightarrow> Inl AttributeError))))))"

subsection \<open>The planner\<close>

text \<open>
  \<open>scene_limit\<close> appears in the prompt only. After a successful first parse the function
  logs \<^verbatim>\<open>len(outline_data.get('scenes', []))\<close>, which raises inside the \<^verbatim>\<open>try\<close> on a value
  that is no dictionary; after a repair it returns the value as it is.
\<close>

definition generate_script_outline_with_gemini ::
  "planned reply \<Rightarrow> (string \<times> json) list \<Rightarrow> nat \<Rightarrow> error + planned" where
  "generate_script_outline_with_gemini response book scene_limit =
     (case outline_prompt book of
        Inl e \<Rightarrow> Inl e
      | Inr prompt \<Rightarrow>
          (case response of
             Backend_error \<Rightarrow> Inr fallback_outline
           | Json Not_an_object \<Rightarrow> Inr fallback_outline
           | Json (Outline scs) \<Rightarrow> Inr (Outline scs)
           | Repaired_json outline_data \<Rightarrow> Inr outline_data
           | Unparseable \<Rightarrow> Inr fallback_outline))"

text \<open>
  What \<^verbatim>\<open>generate_initial_script_with_gemini\<close> takes from the outline:
  \<^verbatim>\<open>outline.get("scenes", [])[:5]\<close>.
\<close>

definition planned_scene_outlines :: "planned \<Rightarrow> error + scene_outline list" where
  "planned_scene_outlines outline =
     (case outline of
        Not_an_object \<Rightarrow> Inl AttributeError
      | Outline None \<Rightarrow> Inr []
      | Outline (Some scs) \<Rightarrow> Inr (take 5 scs))"

definition outline_length :: "planned \<Rightarrow> nat" where
  "outline_length outline =
     (case outline of Outline (Some scs) \<Rightarrow> length scs | _ \<Rightarrow> 0)"

section \<open>The generation cache and the Scene Synthesizer\<close>

text \<open>
  What the cache holds under a scene id is what \<^verbatim>\<open>json.loads\<close> returned or a placeholder
  scene: a scene dictionary, the empty dictionary, or a JSON value that is no
  dictionary (with its truth value).
\<close>

datatype scene_json = Scene_object scene | Empty_object | Other_json bool

record graph_node =
  outgoing :: "(string \<times> string) list"
  incoming :: "(string \<times> string) list"

record story_cache =
  cache_book_analysis :: "book_analysis option"
  generated_scenes :: "string \<rightharpoonup> scene_json"
  scene_graph :: "string \<rightharpoonup> graph_node"
  in_progress_scenes :: "string set"

definition mark_in_progress :: "string \<Rightarrow> story_cache \<Rightarrow> story_cache" where
  "mark_in_progress scene_id c = c\<lparr>in_progress_scenes := insert scene_id (in_progress_scenes c)\<rparr>"

definition save_scene :: "string \<Rightarrow> scene_json \<Rightarrow> story_cache \<Rightarrow> story_cache" where
  "save_scene scene_id v c = c\<lparr>generated_scenes := (generated_scenes c)(scene_id \<mapsto> v)\<rparr>"

text \<open>\<^verbatim>\<open>set.remove\<close> raises \<^verbatim>\<open>KeyError\<close> on a missing element.\<close>

definition remove_in_progress :: "string \<Rightarrow> story_cache \<Rightarrow> error + story_cache" where
  "remove_in_progress scene_id c =
     (if scene_id \<in> in_progress_scenes c
      then Inr (c\<lparr>in_progress_scenes := in_progress_scenes c - {scene_id}\<rparr>)
      else Inl KeyError)"

definition discard_in_progress :: "string \<Rightarrow> story_cache \<Rightarrow> story_cache" where
  "discard_in_progress scene_id c =
     (if scene_id \<in> in_progress_scenes c
      then c\<lparr>in_progress_scenes := in_progress_scenes c - {scene_id}\<rparr>
      else c)"

text \<open>
  The tasks run cooperatively: other tasks run only while this one is suspended in an
  \<^verbatim>\<open>await\<close>, and what they do to the cache meanwhile is a parameter, a function on the
  cache. The waiting loop sleeps up to 30 times and looks into the cache after each
  sleep; \<open>None\<close> is the timeout.
\<close>

fun poll ::
  "nat \<Rightarrow> (nat \<Rightarrow> story_cache \<Rightarrow> story_cache) \<Rightarrow> string \<Rightarrow> story_cache
     \<Rightarrow> scene_json option \<times> story_cache" where
  "poll 0 others scene_id c = (None, c)"
| "poll (Suc k) others scene_id c =
     (let c' = others k c
      in case generated_scenes c' scene_id of
           Some v \<Rightarrow> (Some v, c')
         | None \<Rightarrow> poll k others scene_id c')"

text \<open>The outer handler \<^verbatim>\<open>except Exception\<close>; an exception of its own escapes.\<close>

definition on_exception ::
  "(string \<Rightarrow> string) \<Rightarrow> string \<Rightarrow> scene_outline \<Rightarrow> book_analysis option \<Rightarrow> story_cache
     \<Rightarrow> (error + scene_json) \<times> story_cache" where
  "on_exception lower scene_id outline book c =
     (case create_placeholder_scene lower scene_id outline book of
        Inl e \<Rightarrow> (Inl e, c)
      | Inr placeholder_scene \<Rightarrow>
          (Inr (Scene_object placeholder_scene),
           discard_in_progress scene_id (save_scene scene_id (Scene_object placeholder_scene) c)))"

text \<open>
  The end of the handler of \<^verbatim>\<open>JSONDecodeError\<close>: the placeholder is saved and the claim
  removed with \<^verbatim>\<open>remove\<close>; what is raised here goes to the outer handler.
\<close>

definition placeholder_fallback ::
  "(string \<Rightarrow> string) \<Rightarrow> string \<Rightarrow> scene_outline \<Rightarrow> book_analysis option \<Rightarrow> story_cache
     \<Rightarrow> (error + scene_json) \<times> story_cache" where
  "placeholder_fallback lower scene_id outline book c =
     (case create_placeholder_scene lower scene_id outline book of
        Inl e \<Rightarrow> on_exception lower scene_id outline book c
      | Inr placeholder_scene \<Rightarrow>
          (let c1 = save_scene scene_id (Scene_object placeholder_scene) c
           in case remove_in_progress scene_id c1 of
                Inl e \<Rightarrow> on_exception lower scene_id outline book c1
              | Inr c2 \<Rightarrow> (Inr (Scene_object placeholder_scene), c2)))"

text \<open>
  From \<^verbatim>\<open>STORY_CACHE["in_progress_scenes"].add(scene_id)\<close> on. The character lookup for
  the prompt is the one of the placeholder. \<open>during\<close> is what the other tasks do while
  the backend generates.
\<close>

definition generate ::
  "(string \<Rightarrow> string) \<Rightarrow> (story_cache \<Rightarrow> story_cache) \<Rightarrow> scene_json reply \<Rightarrow> string \<Rightarrow> scene_outline
     \<Rightarrow> book_analysis option \<Rightarrow> story_cache \<Rightarrow> (error + scene_json) \<times> story_cache" where
  "generate lower during response scene_id outline book c =
     (let c1 = mark_in_progress scene_id c
      in case placeholder_characters lower book (o_characters outline) of
           Inl e \<Rightarrow> on_exception lower scene_id outline book c1
         | Inr found \<Rightarrow>
             (let c2 = during c1
              in case response of
                   Backend_error \<Rightarrow> on_exception lower scene_id outline book c2
                 | Json (Other_json t) \<Rightarrow> on_exception lower scene_id outline book c2
                 | Json scene_data \<Rightarrow>
                     (let c3 = save_scene scene_id scene_data c2
                      in case remove_in_progress scene_id c3 of
                           Inl e \<Rightarrow> on_exception lower scene_id outline book c3
                         | Inr c4 \<Rightarrow> (Inr scene_data, c4))
                 | Repaired_json scene_data \<Rightarrow>
                     (let c3 = save_scene scene_id scene_data c2
                      in case remove_in_progress scene_id c3 of
                           Inl e \<Rightarrow> placeholder_fallback lower scene_id outline book c3
                         | Inr c4 \<Rightarrow> (Inr scene_data, c4))
                 | Unparseable \<Rightarrow> placeholder_fallback lower scene_id outline book c2))"

text \<open>
  The Scene Synthesizer. \<open>rnd_suffix\<close> is the random number of the id
  \<^verbatim>\<open>f"scene_{random.randint(1000, 9999)}"\<close> given to an outline without id; \<open>others\<close> is
  what the other tasks do during each sleep of the waiting loop.
\<close>

definition generate_scene_from_outline_with_gemini ::
  "(string \<Rightarrow> string) \<Rightarrow> string \<Rightarrow> (nat \<Rightarrow> story_cache \<Rightarrow> story_cache) \<Rightarrow> (story_cache \<Rightarrow> story_cache)
     \<Rightarrow> scene_json reply \<Rightarrow> scene_outline \<Rightarrow> book_analysis option \<Rightarrow> story_cache
     \<Rightarrow> (error + scene_json) \<times> story_cache" where
  "generate_scene_from_outline_with_gemini lower rnd_suffix others during response outline book c =
     (let scene_id = (case o_id outline of None \<Rightarrow> ''scene_'' @ rnd_suffix | Some i \<Rightarrow> i)
      in case generated_scenes c scene_id of
           Some cached \<Rightarrow> (Inr cached, c)
         | None \<Rightarrow>
             if scene_id \<in> in_progress_scenes c
             then (case poll 30 others scene_id c of
                     (Some cached, c') \<Rightarrow> (Inr cached, c')
                   | (None, c') \<Rightarrow> generate lower during response scene_id outline book c')
             else generate lower during response scene_id outline book c)"


section \<open>Properties of the Outline Planner\<close>

definition holmes_json :: "(string \<times> json) list" where
  "holmes_json =
     [(''metadata'', JDict [(''title'', JStr ''The Speckled Band'')]),
      (''characters'',
         JList [JDict [(''id'', JStr ''holmes''), (''name'', JStr ''Sherlock Holmes'')]]),
      (''plot'',
         JDict [(''summary'', JStr ''A locked room''),
                (''key_points'', JList [JStr ''The whistle'', JStr ''The bell rope'']),
                (''branching_points'',
                   JList [JDict [(''description'', JStr ''Stay or leave''),
                                 (''options'', JList [JStr ''stay'', JStr ''leave''])]])]),
      (''themes'', JList [JStr ''mystery''])]"

lemma holmes_prompt: "outline_prompt holmes_json = Inr ()"
  by (simp add: outline_prompt_def holmes_json_def get_default_def py_slice_def read_plot_def
      joined_def)

definition three_outlines :: planned where
  "three_outlines =
     Outline (Some
       [bare_outline\<lparr>o_id := Some ''scene_a''\<rparr>, bare_outline\<lparr>o_id := Some ''scene_b''\<rparr>,
        bare_outline\<lparr>o_id := Some ''scene_c''\<rparr>])"

text \<open>
  C6 fails as stated: the planner returns what the backend sent, here three outlines
  for a limit of two, and its fallback has two outlines whatever the limit, here one.
\<close>

theorem outline_length_counterexample:
  "generate_script_outline_with_gemini (Json three_outlines) holmes_json 2 = Inr three_outlines \<and>
   outline_length three_outlines = 3 \<and>
   generate_script_outline_with_gemini Backend_error holmes_json 1 = Inr fallback_outline \<and>
   outline_length fallback_outline = 2"
  by (simp add: generate_script_outline_with_gemini_def holmes_prompt three_outlines_def
      outline_length_def fallback_outline_def)

lemma planner_result:
  assumes "outline_prompt book = Inr ()"
  shows "generate_script_outline_with_gemini response book scene_limit =
     Inr (case response of
            Backend_error \<Rightarrow> fallback_outline
          | Json Not_an_object \<Rightarrow> fallback_outline
          | Json (Outline scs) \<Rightarrow> Outline scs
          | Repaired_json outline_data \<Rightarrow> outline_data
          | Unparseable \<Rightarrow> fallback_outline)"
  using assms
  by (simp add: generate_script_outline_with_gemini_def split: reply.splits planned.splits)

text \<open>
  C6, as amended. For a book analysis from which the prompt can be built, whatever the
  limit: the planner returns the fixed fallback of two outlines, \<^verbatim>\<open>scene_1\<close> and
  \<^verbatim>\<open>scene_2a\<close>, when the backend failed, when its output could not be parsed even
  after the repair, and when its output parsed at once to something that is no
  dictionary; it returns the parsed dictionary as the backend sent it, of whatever
  length, after a successful first parse; and after a repair it returns the parsed
  value as it is, dictionary or not. The limit is applied by the caller, which takes at
  most the first five outlines.
\<close>

theorem planner_returns_parsed_or_fallback:
  assumes "outline_prompt book = Inr ()"
  shows "\<exists>outline. generate_script_outline_with_gemini response book scene_limit = Inr outline \<and>
     (response \<in> {Backend_error, Unparseable, Json Not_an_object} \<longrightarrow>
        outline = fallback_outline) \<and>
     (\<forall>scs. response = Json (Outline scs) \<longrightarrow> outline = Outline scs) \<and>
     (\<forall>v. response = Repaired_json v \<longrightarrow> outline = v) \<and>
     outline_length fallback_outline = 2 \<and>
     (\<forall>scs. planned_scene_outlines outline = Inr scs \<longrightarrow> length scs \<le> 5)"
proof -
  have len: "outline_length fallback_outline = 2"
    by (simp add: outline_length_def fallback_outline_def)
  have five: "\<forall>scs. planned_scene_outlines outline = Inr scs \<longrightarrow> length scs \<le> 5" for outline
    by (auto simp: planned_scene_outlines_def split: planned.splits option.splits)
  note r = planner_result [OF assms, of response scene_limit]
  show ?thesis
  proof (cases response)
    case Backend_error
    with r len five show ?thesis by simp
  next
    case (Json v)
    with r len five show ?thesis by (cases v) simp_all
  next
    case (Repaired_json v)
    with r len five show ?thesis by simp
  next
    case Unparseable
    with r len five show ?thesis by simp
  qed
qed

theorem planner_returns_parsed_or_fallback_witness:
  "outline_prompt holmes_json = Inr () \<and>
   (\<exists>outline. generate_script_outline_with_gemini Unparseable holmes_json 5 = Inr outline \<and>
      outline = fallback_outline \<and> outline_length outline = 2) \<and>
   (\<exists>outline. generate_script_outline_with_gemini (Repaired_json Not_an_object) holmes_json 5
        = Inr outline \<and> outline = Not_an_object)"
proof -
  from planner_returns_parsed_or_fallback [OF holmes_prompt, of Unparseable 5]
  have 1: "\<exists>outline. generate_script_outline_with_gemini Unparseable holmes_json 5 = Inr outline \<and>
      outline = fallback_outline \<and> outline_length outline = 2"
    by auto
  from planner_returns_parsed_or_fallback [OF holmes_prompt, of "Repaired_json Not_an_object" 5]
  have 2: "\<exists>outline. generate_script_outline_with_gemini (Repaired_json Not_an_object)
      holmes_json 5 = Inr outline \<and> outline = Not_an_object"
    by auto
  from holmes_prompt 1 2 show ?thesis by (intro conjI)
qed

section \<open>Properties of the Scene Synthesizer\<close>

definition outline_scene_id :: "string \<Rightarrow> scene_outline \<Rightarrow> string" where
  "outline_scene_id rnd_suffix outline =
     (case o_id outline of None \<Rightarrow> ''scene_'' @ rnd_suffix | Some i \<Rightarrow> i)"

text \<open>No scene id is both claimed as in progress and a key of the generated scenes.\<close>

definition cache_invariant :: "story_cache \<Rightarrow> bool" where
  "cache_invariant c \<longleftrightarrow> in_progress_scenes c \<inter> dom (generated_scenes c) = {}"

lemma create_placeholder_scene_returns:
  "placeholder_characters lower book (o_characters outline) = Inr found \<Longrightarrow>
     \<exists>p. create_placeholder_scene lower scene_id outline book = Inr p"
  by (simp add: create_placeholder_scene_def Let_def)

lemma create_placeholder_scene_raises:
  "placeholder_characters lower book (o_characters outline) = Inl e \<Longrightarrow>
     create_placeholder_scene lower scene_id outline book = Inl e"
  by (simp add: create_placeholder_scene_def)

text \<open>
  \<open>settled scene_id v c c'\<close>: \<open>c'\<close> is \<open>c\<close> with \<open>v\<close> saved under \<open>scene_id\<close> and the claim on
  \<open>scene_id\<close> dropped.
\<close>

definition settled :: "string \<Rightarrow> scene_json \<Rightarrow> story_cache \<Rightarrow> story_cache \<Rightarrow> bool" where
  "settled scene_id v c c' \<longleftrightarrow>
     c' = c\<lparr>generated_scenes := (generated_scenes c)(scene_id \<mapsto> v),
           in_progress_scenes := in_progress_scenes c - {scene_id}\<rparr>"

lemma settled_invariant:
  assumes "settled scene_id v c c'" "cache_invariant c"
  shows "cache_invariant c' \<and> generated_scenes c' scene_id = Some v \<and>
         scene_id \<notin> in_progress_scenes c'"
  using assms by (auto simp: settled_def cache_invariant_def)

lemma settled_after_save:
  "settled scene_id v (save_scene scene_id w c) c' \<Longrightarrow> settled scene_id v c c'"
  by (simp add: settled_def save_scene_def)

lemma on_exception_settles:
  assumes "create_placeholder_scene lower scene_id outline book = Inr p"
  shows "\<exists>c'. on_exception lower scene_id outline book c = (Inr (Scene_object p), c') \<and>
           settled scene_id (Scene_object p) c c'"
  using assms
  by (auto simp: on_exception_def settled_def discard_in_progress_def save_scene_def)

lemma save_remove_settles:
  assumes "remove_in_progress scene_id (save_scene scene_id v c) = Inr c'"
  shows "settled scene_id v c c'"
  using assms
  by (auto simp: remove_in_progress_def save_scene_def settled_def split: if_splits)

lemma placeholder_fallback_settles:
  assumes "create_placeholder_scene lower scene_id outline book = Inr p"
  shows "\<exists>c'. placeholder_fallback lower scene_id outline book c = (Inr (Scene_object p), c') \<and>
           settled scene_id (Scene_object p) c c'"
proof (cases "remove_in_progress scene_id (save_scene scene_id (Scene_object p) c)")
  case (Inl e)
  from on_exception_settles [OF assms, of "save_scene scene_id (Scene_object p) c"]
  obtain c' where "on_exception lower scene_id outline book (save_scene scene_id (Scene_object p) c) =
      (Inr (Scene_object p), c')" "settled scene_id (Scene_object p) c c'"
    by (auto dest: settled_after_save)
  with Inl assms show ?thesis by (simp add: placeholder_fallback_def)
next
  case (Inr c2)
  with assms save_remove_settles [OF Inr] show ?thesis by (simp add: placeholder_fallback_def)
qed

text \<open>
  From the marking on, when the character lookup succeeds: the call returns a value and
  leaves it saved under the scene id with the claim dropped, on top of what the other
  tasks left; and a failure of the backend or of the parse gives the placeholder.
\<close>

lemma generate_settles:
  assumes "placeholder_characters lower book (o_characters outline) = Inr found"
  shows "\<exists>v c'. generate lower during response scene_id outline book c = (Inr v, c') \<and>
           settled scene_id v (during (mark_in_progress scene_id c)) c' \<and>
           (response \<in> {Backend_error, Unparseable} \<or> (\<exists>t. response = Json (Other_json t))
              \<longrightarrow> (\<exists>p. v = Scene_object p \<and>
                     create_placeholder_scene lower scene_id outline book = Inr p))"
proof -
  from create_placeholder_scene_returns [OF assms]
  obtain p where p: "create_placeholder_scene lower scene_id outline book = Inr p" by blast
  let ?c2 = "during (mark_in_progress scene_id c)"
  note ex = on_exception_settles [OF p]
  note pf = placeholder_fallback_settles [OF p]
  show ?thesis
  proof (cases response)
    case Backend_error
    with assms p ex [of ?c2] show ?thesis by (auto simp: generate_def Let_def)
  next
    case Unparseable
    with assms p pf [of ?c2] show ?thesis by (auto simp: generate_def Let_def)
  next
    case (Json v)
    show ?thesis
    proof (cases v)
      case (Other_json t)
      with Json assms p ex [of ?c2] show ?thesis by (auto simp: generate_def Let_def)
    next
      case (Scene_object sc)
      show ?thesis
      proof (cases "remove_in_progress scene_id (save_scene scene_id v ?c2)")
        case (Inl e)
        with ex [of "save_scene scene_id v ?c2"] Json Scene_object assms show ?thesis
          by (auto simp: generate_def Let_def dest: settled_after_save)
      next
        case (Inr c4)
        with save_remove_settles [OF Inr] Json Scene_object assms show ?thesis
          by (auto simp: generate_def Let_def)
      qed
    next
      case Empty_object
      show ?thesis
      proof (cases "remove_in_progress scene_id (save_scene scene_id v ?c2)")
        case (Inl e)
        with ex [of "save_scene scene_id v ?c2"] Json Empty_object assms show ?thesis
          by (auto simp: generate_def Let_def dest: settled_after_save)
      next
        case (Inr c4)
        with save_remove_settles [OF Inr] Json Empty_object assms show ?thesis
          by (auto simp: generate_def Let_def)
      qed
    qed
  next
    case (Repaired_json v)
    show ?thesis
    proof (cases "remove_in_progress scene_id (save_scene scene_id v ?c2)")
      case (Inl e)
      with pf [of "save_scene scene_id v ?c2"] Repaired_json assms show ?thesis
        by (auto simp: generate_def Let_def dest: settled_after_save)
    next
      case (Inr c4)
      with save_remove_settles [OF Inr] Repaired_json assms show ?thesis
        by (auto simp: generate_def Let_def)
    qed
  qed
qed


lemma generate_raises:
  assumes "placeholder_characters lower book (o_characters outline) = Inl e"
  shows "generate lower during response scene_id outline book c = (Inl e, mark_in_progress scene_id c)"
  using assms create_placeholder_scene_raises [OF assms, of scene_id]
  by (simp add: generate_def on_exception_def)

lemma poll_result:
  assumes "\<forall>k c. cache_invariant c \<longrightarrow> cache_invariant (others k c)"
    and "cache_invariant c" and "generated_scenes c scene_id = None"
    and "poll n others scene_id c = (r, c')"
  shows "cache_invariant c' \<and> generated_scenes c' scene_id = r"
  using assms(2-4)
proof (induction n arbitrary: c)
  case 0
  then show ?case by simp
next
  case (Suc n)
  from assms(1) Suc.prems(1) have inv: "cache_invariant (others n c)" by blast
  show ?case
  proof (cases "generated_scenes (others n c) scene_id")
    case None
    with Suc.prems(3) have "poll n others scene_id (others n c) = (r, c')" by simp
    from Suc.IH [OF inv None this] show ?thesis .
  next
    case (Some v)
    with Suc.prems(3) inv show ?thesis by auto
  qed
qed

lemma mark_invariant:
  "cache_invariant c \<Longrightarrow> generated_scenes c scene_id = None \<Longrightarrow>
     cache_invariant (mark_in_progress scene_id c)"
  by (auto simp: cache_invariant_def mark_in_progress_def)

lemma generate_invariant:
  assumes inv: "cache_invariant c" and none: "generated_scenes c scene_id = None"
    and during: "\<forall>c. cache_invariant c \<longrightarrow> cache_invariant (during c)"
    and g: "generate lower during response scene_id outline book c = (res, c')"
  shows "cache_invariant c' \<and>
     (\<forall>v. res = Inr v \<longrightarrow> generated_scenes c' scene_id = Some v \<and>
           scene_id \<notin> in_progress_scenes c')"
proof (cases "placeholder_characters lower book (o_characters outline)")
  case (Inl e)
  from generate_raises [OF Inl, of during response scene_id c] g mark_invariant [OF inv none]
  show ?thesis by auto
next
  case (Inr found)
  from generate_settles [OF Inr, of during response scene_id c] g
  obtain v where v: "res = Inr v"
    "settled scene_id v (during (mark_in_progress scene_id c)) c'"
    by auto
  from during mark_invariant [OF inv none]
  have "cache_invariant (during (mark_in_progress scene_id c))" by blast
  from settled_invariant [OF v(2) this] v(1) show ?thesis by simp
qed

lemma synthesizer_invariant:
  assumes inv: "cache_invariant c"
    and others: "\<forall>k c. cache_invariant c \<longrightarrow> cache_invariant (others k c)"
    and during: "\<forall>c. cache_invariant c \<longrightarrow> cache_invariant (during c)"
    and run: "generate_scene_from_outline_with_gemini lower rnd_suffix others during response
                outline book c = (res, c')"
  shows "cache_invariant c' \<and>
     (\<forall>v. res = Inr v \<longrightarrow>
        generated_scenes c' (outline_scene_id rnd_suffix outline) = Some v \<and>
        outline_scene_id rnd_suffix outline \<notin> in_progress_scenes c') \<and>
     (\<forall>cached. generated_scenes c (outline_scene_id rnd_suffix outline) = Some cached \<longrightarrow>
        res = Inr cached \<and> c' = c)"
proof (cases "generated_scenes c (outline_scene_id rnd_suffix outline)")
  case (Some cached)
  with run have "res = Inr cached" "c' = c"
    by (auto simp: generate_scene_from_outline_with_gemini_def outline_scene_id_def Let_def)
  with Some inv show ?thesis by (auto simp: cache_invariant_def)
next
  case None
  let ?id = "outline_scene_id rnd_suffix outline"
  show ?thesis
  proof (cases "?id \<in> in_progress_scenes c")
    case False
    with None run have "generate lower during response ?id outline book c = (res, c')"
      by (auto simp: generate_scene_from_outline_with_gemini_def outline_scene_id_def Let_def)
    from generate_invariant [OF inv None during this] None show ?thesis by simp
  next
    case True
    obtain r c1 where p: "poll 30 others ?id c = (r, c1)" by (cases "poll 30 others ?id c")
    from poll_result [OF others inv None p]
    have inv1: "cache_invariant c1" and r: "generated_scenes c1 ?id = r" by auto
    show ?thesis
    proof (cases r)
      case (Some v)
      with True None run p have "res = Inr v" "c' = c1"
        by (auto simp: generate_scene_from_outline_with_gemini_def outline_scene_id_def Let_def)
      with Some r inv1 None show ?thesis by (auto simp: cache_invariant_def)
    next
      case none: None
      with True None run p have "generate lower during response ?id outline book c1 = (res, c')"
        by (auto simp: generate_scene_from_outline_with_gemini_def outline_scene_id_def Let_def)
      from generate_invariant [OF inv1 _ during this] r none None show ?thesis by simp
    qed
  qed
qed

text \<open>
  C3, as amended. Take a cache in which no scene id is both in progress and generated,
  and let whatever runs while the synthesizer is suspended keep it so. Then it is so
  again when the synthesizer returns or raises; a scene it returns is then the entry of
  the outline's id and that id is not in progress; and a call for an id that is already
  generated returns the cached entry and leaves the cache as it is.
\<close>

theorem synthesizer_keeps_cache_invariant:
  assumes "cache_invariant c"
    and "\<forall>k c. cache_invariant c \<longrightarrow> cache_invariant (others k c)"
    and "\<forall>c. cache_invariant c \<longrightarrow> cache_invariant (during c)"
    and "generate_scene_from_outline_with_gemini lower rnd_suffix others during response
           outline book c = (res, c')"
  shows "cache_invariant c' \<and>
     (\<forall>v. res = Inr v \<longrightarrow>
        generated_scenes c' (outline_scene_id rnd_suffix outline) = Some v \<and>
        outline_scene_id rnd_suffix outline \<notin> in_progress_scenes c') \<and>
     (\<forall>cached. generated_scenes c (outline_scene_id rnd_suffix outline) = Some cached \<longrightarrow>
        res = Inr cached \<and> c' = c)"
  using assms by (rule synthesizer_invariant)


definition empty_cache :: story_cache where
  "empty_cache =
     \<lparr>cache_book_analysis = None, generated_scenes = Map.empty, scene_graph = Map.empty,
      in_progress_scenes = {}\<rparr>"

lemma bare_outline_id: "outline_scene_id [] bare_outline = ''scene_x''"
  by (simp add: outline_scene_id_def bare_outline_def)

lemma bare_characters: "placeholder_characters lower None (o_characters bare_outline) = Inr []"
  by (simp add: bare_outline_def)

lemma poll_idle:
  "generated_scenes c scene_id = None \<Longrightarrow> poll n (\<lambda>_. id) scene_id c = (None, c)"
  by (induction n) simp_all

lemma synthesizer_alone:
  "generate_scene_from_outline_with_gemini lower [] (\<lambda>_. id) id (Json v) bare_outline None empty_cache =
     (case v of
        Other_json t \<Rightarrow>
          (Inr (Scene_object bare_placeholder),
           save_scene ''scene_x'' (Scene_object bare_placeholder) empty_cache)
      | _ \<Rightarrow> (Inr v, save_scene ''scene_x'' v empty_cache))"
  using bare_placeholder_eval
  by (cases v)
    (simp_all add: generate_scene_from_outline_with_gemini_def generate_def on_exception_def
      bare_characters bare_outline_id [unfolded outline_scene_id_def] empty_cache_def
      mark_in_progress_def save_scene_def remove_in_progress_def discard_in_progress_def)

theorem synthesizer_keeps_cache_invariant_witness:
  "cache_invariant empty_cache \<and>
   generate_scene_from_outline_with_gemini ascii_lower [] (\<lambda>_. id) id (Json Empty_object) bare_outline None
     empty_cache = (Inr Empty_object, save_scene ''scene_x'' Empty_object empty_cache) \<and>
   cache_invariant (save_scene ''scene_x'' Empty_object empty_cache) \<and>
   generated_scenes (save_scene ''scene_x'' Empty_object empty_cache) ''scene_x'' =
     Some Empty_object \<and>
   ''scene_x'' \<notin> in_progress_scenes (save_scene ''scene_x'' Empty_object empty_cache)"
proof -
  have i: "cache_invariant empty_cache" by (simp add: cache_invariant_def empty_cache_def)
  have o: "\<forall>k c. cache_invariant c \<longrightarrow> cache_invariant ((\<lambda>_. id) k c)" by simp
  have d: "\<forall>c. cache_invariant c \<longrightarrow> cache_invariant (id c)" by simp
  have r: "generate_scene_from_outline_with_gemini ascii_lower [] (\<lambda>_. id) id (Json Empty_object)
      bare_outline None empty_cache =
      (Inr Empty_object, save_scene ''scene_x'' Empty_object empty_cache)"
    by (simp add: synthesizer_alone)
  from synthesizer_keeps_cache_invariant [OF i o d r] i r show ?thesis
    by (simp add: bare_outline_id)
qed

text \<open>
  What another call for the same outline does to the cache when it runs to its end
  after its waiting loop timed out, the backend answering it with the empty dictionary.
\<close>

definition second_call :: "(string \<Rightarrow> string) \<Rightarrow> story_cache \<Rightarrow> story_cache" where
  "second_call lower c =
     snd (generate_scene_from_outline_with_gemini lower [] (\<lambda>_. id) id (Json Empty_object)
            bare_outline None c)"

lemma second_call_claimed:
  "second_call lower (mark_in_progress ''scene_x'' empty_cache) =
     save_scene ''scene_x'' Empty_object empty_cache"
  by (simp add: second_call_def generate_scene_from_outline_with_gemini_def generate_def
      bare_characters bare_outline_id [unfolded outline_scene_id_def] empty_cache_def
      mark_in_progress_def save_scene_def remove_in_progress_def poll_idle)

lemma first_call_overtaken:
  "generate_scene_from_outline_with_gemini lower [] (\<lambda>_. id) (second_call lower) (Json (Other_json True))
     bare_outline None empty_cache =
   (Inr (Scene_object bare_placeholder),
    save_scene ''scene_x'' (Scene_object bare_placeholder) empty_cache)"
proof -
  have start: "generate_scene_from_outline_with_gemini lower [] (\<lambda>_. id) (second_call lower)
      (Json (Other_json True)) bare_outline None empty_cache =
      generate lower (second_call lower) (Json (Other_json True)) ''scene_x'' bare_outline None empty_cache"
    by (simp add: generate_scene_from_outline_with_gemini_def
        bare_outline_id [unfolded outline_scene_id_def] empty_cache_def)
  have "generate lower (second_call lower) (Json (Other_json True)) ''scene_x'' bare_outline None empty_cache =
      on_exception lower ''scene_x'' bare_outline None (save_scene ''scene_x'' Empty_object empty_cache)"
    by (simp add: generate_def bare_characters second_call_claimed Let_def)
  also have "\<dots> = (Inr (Scene_object bare_placeholder),
      save_scene ''scene_x'' (Scene_object bare_placeholder) empty_cache)"
    by (simp add: on_exception_def bare_placeholder_eval empty_cache_def save_scene_def
        discard_in_progress_def)
  finally show ?thesis unfolding start .
qed

text \<open>
  C3 fails as stated, on both counts. Inside a call the scene is saved before the claim
  is removed: after the statement that saves, the id is in progress and generated at
  once. And an entry is overwritten: a first call is suspended in the backend, a second
  call for the same id times out waiting, generates and saves its scene; then the first
  call, answered with a JSON value that is no dictionary, saves its placeholder over it.
\<close>

theorem cache_states_counterexample:
  "\<not> cache_invariant (save_scene ''scene_x'' Empty_object
        (mark_in_progress ''scene_x'' empty_cache)) \<and>
   remove_in_progress ''scene_x''
       (save_scene ''scene_x'' Empty_object (mark_in_progress ''scene_x'' empty_cache)) =
     Inr (save_scene ''scene_x'' Empty_object empty_cache) \<and>
   generate_scene_from_outline_with_gemini ascii_lower [] (\<lambda>_. id) id (Json Empty_object) bare_outline None
     empty_cache = (Inr Empty_object, save_scene ''scene_x'' Empty_object empty_cache) \<and>
   generated_scenes (second_call ascii_lower (mark_in_progress ''scene_x'' empty_cache)) ''scene_x'' =
     Some Empty_object \<and>
   generated_scenes
     (snd (generate_scene_from_outline_with_gemini ascii_lower [] (\<lambda>_. id) (second_call ascii_lower)
             (Json (Other_json True)) bare_outline None empty_cache)) ''scene_x'' =
     Some (Scene_object bare_placeholder)"
proof (intro conjI)
  show "\<not> cache_invariant (save_scene ''scene_x'' Empty_object
        (mark_in_progress ''scene_x'' empty_cache))"
    by (simp add: cache_invariant_def save_scene_def mark_in_progress_def empty_cache_def)
  show "remove_in_progress ''scene_x''
       (save_scene ''scene_x'' Empty_object (mark_in_progress ''scene_x'' empty_cache)) =
     Inr (save_scene ''scene_x'' Empty_object empty_cache)"
    by (simp add: remove_in_progress_def save_scene_def mark_in_progress_def empty_cache_def)
  show "generate_scene_from_outline_with_gemini ascii_lower [] (\<lambda>_. id) id (Json Empty_object) bare_outline
     None empty_cache = (Inr Empty_object, save_scene ''scene_x'' Empty_object empty_cache)"
    by (simp add: synthesizer_alone)
  show "generated_scenes (second_call ascii_lower (mark_in_progress ''scene_x'' empty_cache)) ''scene_x'' =
     Some Empty_object"
    by (simp add: second_call_claimed save_scene_def)
  show "generated_scenes
     (snd (generate_scene_from_outline_with_gemini ascii_lower [] (\<lambda>_. id) (second_call ascii_lower)
             (Json (Other_json True)) bare_outline None empty_cache)) ''scene_x'' =
     Some (Scene_object bare_placeholder)"
    by (simp add: first_call_overtaken save_scene_def)
qed


section \<open>Exceptions of the Outline Planner and the Scene Synthesizer\<close>

definition nameless_book :: book_analysis where
  "nameless_book =
     \<lparr>metadata = None,
      ba_characters = [\<lparr>bc_id = Some ''holmes'', bc_name = None\<rparr>],
      ba_tone = None\<rparr>"

definition watson_outline :: scene_outline where
  "watson_outline = bare_outline\<lparr>o_characters := [''watson'']\<rparr>"

text \<open>
  C5 fails as stated. The planner builds its prompt before the \<^verbatim>\<open>try\<close>: a book
  analysis without \<^verbatim>\<open>metadata\<close> makes it raise \<^verbatim>\<open>KeyError\<close>, one whose \<^verbatim>\<open>metadata\<close> is
  \<^verbatim>\<open>null\<close> or whose \<^verbatim>\<open>plot\<close> is a string \<^verbatim>\<open>AttributeError\<close>. And a character of the book
  analysis that has another id and no name makes the synthesizer raise
  \<^verbatim>\<open>AttributeError\<close>: the lookup raises inside the \<^verbatim>\<open>try\<close> and again in the handler,
  which builds the placeholder with the same lookup.
\<close>

theorem exception_escapes_counterexample:
  "generate_script_outline_with_gemini Backend_error [(''characters'', JList [])] 5
     = Inl KeyError \<and>
   generate_script_outline_with_gemini Backend_error [(''metadata'', JNull)] 5
     = Inl AttributeError \<and>
   generate_script_outline_with_gemini Backend_error
       [(''metadata'', JDict []), (''plot'', JStr ''A locked room'')] 5
     = Inl AttributeError \<and>
   generate_scene_from_outline_with_gemini ascii_lower [] (\<lambda>_. id) id Backend_error
       watson_outline (Some nameless_book) empty_cache =
     (Inl AttributeError, mark_in_progress ''scene_x'' empty_cache)"
proof (intro conjI)
  show "generate_script_outline_with_gemini Backend_error [(''characters'', JList [])] 5
      = Inl KeyError"
    by (simp add: generate_script_outline_with_gemini_def outline_prompt_def get_default_def
        py_slice_def read_plot_def)
  show "generate_script_outline_with_gemini Backend_error [(''metadata'', JNull)] 5
      = Inl AttributeError"
    by (simp add: generate_script_outline_with_gemini_def outline_prompt_def get_default_def
        py_slice_def read_plot_def)
  show "generate_script_outline_with_gemini Backend_error
       [(''metadata'', JDict []), (''plot'', JStr ''A locked room'')] 5
     = Inl AttributeError"
    by (simp add: generate_script_outline_with_gemini_def outline_prompt_def get_default_def
        py_slice_def read_plot_def)
  have "placeholder_characters ascii_lower (Some nameless_book) (o_characters watson_outline) =
      Inl AttributeError"
    by (simp add: watson_outline_def bare_outline_def nameless_book_def lookup_character_def)
  from generate_raises [OF this]
  show "generate_scene_from_outline_with_gemini ascii_lower [] (\<lambda>_. id) id Backend_error
       watson_outline (Some nameless_book) empty_cache =
     (Inl AttributeError, mark_in_progress ''scene_x'' empty_cache)"
    by (simp add: generate_scene_from_outline_with_gemini_def watson_outline_def
        bare_outline_def empty_cache_def)
qed

lemma synthesizer_returns:
  assumes "placeholder_characters lower book (o_characters outline) = Inr found"
  shows "\<exists>v c'. generate_scene_from_outline_with_gemini lower rnd_suffix others during response
            outline book c = (Inr v, c')"
proof -
  let ?id = "outline_scene_id rnd_suffix outline"
  note g = generate_settles [OF assms, of during response ?id]
  show ?thesis
  proof (cases "generated_scenes c ?id")
    case (Some cached)
    then show ?thesis
      by (simp add: generate_scene_from_outline_with_gemini_def outline_scene_id_def)
  next
    case None
    obtain r c1 where p: "poll 30 others ?id c = (r, c1)" by (cases "poll 30 others ?id c")
    from g [of c] obtain v c' where
      1: "generate lower during response ?id outline book c = (Inr v, c')"
      by blast
    from g [of c1] obtain w c'' where
      2: "generate lower during response ?id outline book c1 = (Inr w, c'')"
      by blast
    from None p 1 2 show ?thesis
      by (cases r)
        (auto simp: generate_scene_from_outline_with_gemini_def outline_scene_id_def Let_def)
  qed
qed

text \<open>
  C5, as amended. When the prompt of the planner can be built from the book analysis
  without an exception, the planner raises nothing, and a failure of the backend, an
  output that cannot be parsed even after the repair and an output that parses at once
  to something that is no dictionary all give the fallback outline. When the lookup of
  the outline's characters in the book analysis raises nothing, the synthesizer raises
  nothing; and from the marking on, a failure of the backend, an output that cannot be
  parsed and an output that parses at once to something that is no dictionary all give
  the placeholder scene of the outline.
\<close>

theorem no_exception_escapes_when_inputs_resolve:
  assumes "outline_prompt book = Inr ()"
    and "placeholder_characters lower cached_book (o_characters outline) = Inr found"
  shows "(\<exists>planned. generate_script_outline_with_gemini outline_response book scene_limit
             = Inr planned \<and>
            (outline_response \<in> {Backend_error, Unparseable, Json Not_an_object} \<longrightarrow>
               planned = fallback_outline)) \<and>
     (\<exists>v c'. generate_scene_from_outline_with_gemini lower rnd_suffix others during response
                outline cached_book c = (Inr v, c')) \<and>
     (response \<in> {Backend_error, Unparseable} \<or> (\<exists>t. response = Json (Other_json t)) \<longrightarrow>
        (\<exists>p c'. create_placeholder_scene lower scene_id outline cached_book = Inr p \<and>
           generate lower during response scene_id outline cached_book c =
             (Inr (Scene_object p), c')))"
proof (intro conjI)
  show "\<exists>planned. generate_script_outline_with_gemini outline_response book scene_limit
      = Inr planned \<and>
      (outline_response \<in> {Backend_error, Unparseable, Json Not_an_object} \<longrightarrow>
         planned = fallback_outline)"
    using planner_result [OF assms(1), of outline_response scene_limit] by auto
  show "\<exists>v c'. generate_scene_from_outline_with_gemini lower rnd_suffix others during response
      outline cached_book c = (Inr v, c')"
    using assms(2) by (rule synthesizer_returns)
  show "response \<in> {Backend_error, Unparseable} \<or> (\<exists>t. response = Json (Other_json t)) \<longrightarrow>
        (\<exists>p c'. create_placeholder_scene lower scene_id outline cached_book = Inr p \<and>
           generate lower during response scene_id outline cached_book c =
             (Inr (Scene_object p), c'))"
    using generate_settles [OF assms(2), of during response scene_id c] by blast
qed

theorem no_exception_escapes_when_inputs_resolve_witness:
  "outline_prompt holmes_json = Inr () \<and>
   placeholder_characters ascii_lower (Some holmes_book) (o_characters holmes_outline)
     = Inr [\<lparr>ch_id = ''holmes'', image = ''A character representing Sherlock Holmes''\<rparr>] \<and>
   generate_script_outline_with_gemini Unparseable holmes_json 5 = Inr fallback_outline \<and>
   (\<exists>v c'. generate_scene_from_outline_with_gemini ascii_lower [] (\<lambda>_. id) id Backend_error
              holmes_outline (Some holmes_book) empty_cache = (Inr v, c')) \<and>
   (\<exists>c'. generate ascii_lower id Backend_error ''scene_x'' holmes_outline (Some holmes_book)
            empty_cache = (Inr (Scene_object holmes_placeholder), c'))"
proof -
  note t = no_exception_escapes_when_inputs_resolve [OF holmes_prompt holmes_characters,
      where outline_response = Unparseable and scene_limit = 5 and rnd_suffix = "[]"
        and others = "\<lambda>_. id" and during = id and response = Backend_error
        and c = empty_cache and scene_id = "''scene_x''"]
  from t have 1: "generate_script_outline_with_gemini Unparseable holmes_json 5
      = Inr fallback_outline"
    by auto
  from t have 2: "\<exists>v c'. generate_scene_from_outline_with_gemini ascii_lower [] (\<lambda>_. id) id
      Backend_error holmes_outline (Some holmes_book) empty_cache = (Inr v, c')"
    by blast
  from t holmes_placeholder_eval
  have 3: "\<exists>c'. generate ascii_lower id Backend_error ''scene_x'' holmes_outline
      (Some holmes_book) empty_cache = (Inr (Scene_object holmes_placeholder), c')"
    by auto
  from holmes_prompt holmes_characters 1 2 3 show ?thesis by (intro conjI)
qed

section \<open>Runtime Scene Resolver\<close>

text \<open>
  \<^verbatim>\<open>generate_placeholder_scene\<close>. \<open>rnd1\<close> and \<open>rnd2\<close> are the random numbers of its two
  \<^verbatim>\<open>nextScene\<close> ids; \<^verbatim>\<open>f"char_{i}"\<close> is needed for the indices 0 and 1 only. The scene is
  stored in the cache without a look at the claims. (\<^verbatim>\<open>STORY_CACHE\<close> has no key
  \<^verbatim>\<open>generation_info\<close>, so the update of the generation info never runs.)
\<close>

definition digit_string :: "nat \<Rightarrow> string" where
  "digit_string i = [char_of (48 + i)]"

definition placeholder_char_ids :: "book_character list \<Rightarrow> string list" where
  "placeholder_char_ids chars =
     map (\<lambda>(i, char). case bc_id char of None \<Rightarrow> ''char_'' @ digit_string i | Some x \<Rightarrow> x)
         (enumerate 0 (take 2 chars))"

definition generate_placeholder_scene ::
  "string \<Rightarrow> string \<Rightarrow> string \<Rightarrow> book_analysis option \<Rightarrow> story_cache
     \<Rightarrow> (error + scene_json) \<times> story_cache" where
  "generate_placeholder_scene rnd1 rnd2 scene_id book c =
     (case book of
        None \<Rightarrow> (Inl AttributeError, c)
      | Some b \<Rightarrow>
          (let chars = ba_characters b;
               char_ids = placeholder_char_ids chars;
               sc =
                 \<lparr>sid = scene_id, background = ''library'',
                  characters = map (\<lambda>char_id. \<lparr>ch_id = char_id, image = ''default''\<rparr>) char_ids,
                  dialogue =
                    [\<lparr>speaker = ''Narrator'', d_text = ''The story continues...'',
                       character = None, choices = None\<rparr>,
                     \<lparr>speaker =
                         (case chars of
                            [] \<Rightarrow> ''Character''
                          | char # _ \<Rightarrow>
                              (case bc_name char of None \<Rightarrow> ''Character'' | Some n \<Rightarrow> n)),
                       d_text = ''We should proceed carefully from here.'',
                       character =
                         Some (case char_ids of [] \<Rightarrow> ''protagonist'' | i # _ \<Rightarrow> i),
                       choices = None\<rparr>,
                     \<lparr>speaker =
                         (if length chars > 1
                          then (case bc_name (chars ! 1) of None \<Rightarrow> ''Friend'' | Some n \<Rightarrow> n)
                          else ''Friend''),
                       d_text = ''I agree. Let's consider our options.'',
                       character =
                         Some (if length char_ids > 1 then char_ids ! 1 else ''supporting''),
                       choices = None\<rparr>,
                     \<lparr>speaker = ''Narrator'', d_text = ''What will you do?'',
                       character = None,
                       choices = Some
                         [\<lparr>c_text = ''Continue the adventure'',
                            nextScene = Some (''scene_'' @ rnd1)\<rparr>,
                          \<lparr>c_text = ''Take a different path'',
                            nextScene = Some (''scene_'' @ rnd2)\<rparr>]\<rparr>],
                  generated_with = Some ''Placeholder''\<rparr>
           in (Inr (Scene_object sc), save_scene scene_id (Scene_object sc) c)))"

text \<open>\<^verbatim>\<open>sep.join(xs)\<close>.\<close>

fun join :: "string \<Rightarrow> string list \<Rightarrow> string" where
  "join sep [] = []"
| "join sep [x] = x"
| "join sep (x # y # ys) = x @ sep @ join sep (y # ys)"

text \<open>
  The characters of the outline of a known target: the ids of the characters of the
  generated source scenes, each once, empty ids left out. \<^verbatim>\<open>source_scene.get\<close> raises
  on a cached value that is no dictionary.
\<close>

definition add_character :: "scene_character \<Rightarrow> string list \<Rightarrow> string list" where
  "add_character char acc =
     (if ch_id char \<noteq> [] \<and> ch_id char \<notin> set acc then acc @ [ch_id char] else acc)"

fun infer_characters ::
  "(string \<rightharpoonup> scene_json) \<Rightarrow> (string \<times> string) list \<Rightarrow> string list \<Rightarrow> error + string list" where
  "infer_characters generated [] acc = Inr acc"
| "infer_characters generated (conn # rest) acc =
     (case generated (fst conn) of
        None \<Rightarrow> infer_characters generated rest acc
      | Some (Scene_object source) \<Rightarrow>
          infer_characters generated rest (fold add_character (characters source) acc)
      | Some Empty_object \<Rightarrow> infer_characters generated rest acc
      | Some (Other_json t) \<Rightarrow> Inl AttributeError)"

text \<open>
  The outline the resolver builds: from the incoming edges when the id is in the scene
  graph, the generic one otherwise. \<open>rnd_count\<close> is \<^verbatim>\<open>random.randint(7, 10)\<close>. An edge
  of the graph is a pair of the other scene's id and the choice text.
\<close>

definition resolver_outline :: "int \<Rightarrow> string \<Rightarrow> story_cache \<Rightarrow> error + scene_outline" where
  "resolver_outline rnd_count next_scene_id c =
     (case scene_graph c next_scene_id of
        Some node \<Rightarrow>
          (case infer_characters (generated_scenes c) (incoming node) [] of
             Inl e \<Rightarrow> Inl e
           | Inr chars \<Rightarrow>
               Inr \<lparr>o_id = Some next_scene_id,
                    o_description = Some (''Continuation of the story from '' @
                        join '', '' (map fst (incoming node))),
                    o_characters = chars,
                    o_setting = Some ''A location appropriate to the story progression'',
                    o_atmosphere = Some ''Consistent with the narrative tone'',
                    dialogue_count = Some rnd_count,
                    connects_to = []\<rparr>)
      | None \<Rightarrow>
          Inr \<lparr>o_id = Some next_scene_id,
               o_description = Some ''Continuation of the adventure'',
               o_characters = [],
               o_setting = Some ''A location within the story world'',
               o_atmosphere = Some ''Consistent with the narrative'',
               dialogue_count = Some 8,
               connects_to = [''scene_next'', ''scene_alt'']\<rparr>)"

text \<open>
  The generation itself, the same code in both branches. With the backend the scene
  comes from the synthesizer; a scene dictionary is tagged (the cached entry is the
  same object, so it is tagged too) and returned. Without the backend, and when the
  synthesizer raised or returned something that is false or no dictionary, the
  placeholder is made and stored.
\<close>

definition synthesize_or_placeholder ::
  "(string \<Rightarrow> string) \<Rightarrow> bool \<Rightarrow> string \<Rightarrow> string \<Rightarrow> (nat \<Rightarrow> story_cache \<Rightarrow> story_cache) \<Rightarrow> (story_cache \<Rightarrow> story_cache)
     \<Rightarrow> scene_json reply \<Rightarrow> string \<Rightarrow> scene_outline \<Rightarrow> story_cache
     \<Rightarrow> (error + scene_json) \<times> story_cache" where
  "synthesize_or_placeholder lower gemini_available rnd1 rnd2 others during response next_scene_id
       outline c =
     (let book = cache_book_analysis c
      in if gemini_available
         then (case generate_scene_from_outline_with_gemini lower [] others during response
                      outline book c of
                 (Inr (Scene_object sc), c') \<Rightarrow>
                   (Inr (Scene_object (sc\<lparr>generated_with := Some ''Gemini''\<rparr>)),
                    save_scene next_scene_id
                      (Scene_object (sc\<lparr>generated_with := Some ''Gemini''\<rparr>)) c')
               | (other, c') \<Rightarrow> generate_placeholder_scene rnd1 rnd2 next_scene_id book c')
         else generate_placeholder_scene rnd1 rnd2 next_scene_id book c)"

definition generate_next_scene ::
  "(string \<Rightarrow> string) \<Rightarrow> bool \<Rightarrow> int \<Rightarrow> string \<Rightarrow> string \<Rightarrow> (nat \<Rightarrow> story_cache \<Rightarrow> story_cache)
     \<Rightarrow> (story_cache \<Rightarrow> story_cache) \<Rightarrow> scene_json reply \<Rightarrow> string \<Rightarrow> story_cache
     \<Rightarrow> (error + scene_json) \<times> story_cache" where
  "generate_next_scene lower gemini_available rnd_count rnd1 rnd2 others during response
       next_scene_id c =
     (case generated_scenes c next_scene_id of
        Some cached \<Rightarrow> (Inr cached, c)
      | None \<Rightarrow>
          (case resolver_outline rnd_count next_scene_id c of
             Inl e \<Rightarrow> (Inl e, c)
           | Inr outline \<Rightarrow>
               synthesize_or_placeholder lower gemini_available rnd1 rnd2 others during response
                 next_scene_id outline c))"


section \<open>Properties of the Runtime Scene Resolver\<close>

definition claimed_cache :: story_cache where
  "claimed_cache =
     mark_in_progress ''scene_x'' (empty_cache\<lparr>cache_book_analysis := Some holmes_book\<rparr>)"

text \<open>
  C8 fails as stated: without the backend the resolver stores its placeholder under an
  id that another task has claimed, and the id is then in progress and generated at
  once.
\<close>

theorem resolver_bypass_counterexample:
  "cache_invariant claimed_cache \<and>
   generated_scenes claimed_cache ''scene_x'' = None \<and>
   ''scene_x'' \<in> in_progress_scenes claimed_cache \<and>
   ''scene_x'' \<in> dom (generated_scenes
       (snd (generate_next_scene ascii_lower False 7 ''1234'' ''5678'' (\<lambda>_. id) id Backend_error
               ''scene_x'' claimed_cache))) \<and>
   ''scene_x'' \<in> in_progress_scenes
       (snd (generate_next_scene ascii_lower False 7 ''1234'' ''5678'' (\<lambda>_. id) id Backend_error
               ''scene_x'' claimed_cache)) \<and>
   \<not> cache_invariant
       (snd (generate_next_scene ascii_lower False 7 ''1234'' ''5678'' (\<lambda>_. id) id Backend_error
               ''scene_x'' claimed_cache))"
  by (simp add: claimed_cache_def empty_cache_def mark_in_progress_def cache_invariant_def
      generate_next_scene_def resolver_outline_def synthesize_or_placeholder_def
      generate_placeholder_scene_def save_scene_def Let_def)

lemma resolver_outline_id:
  "resolver_outline rnd_count next_scene_id c = Inr outline \<Longrightarrow> o_id outline = Some next_scene_id"
  by (auto simp: resolver_outline_def split: option.splits sum.splits)

text \<open>
  C8, as amended. The resolver looks into the generated scenes first and returns a
  cached entry without touching the cache. Otherwise it builds an outline with the
  requested id. With the backend it calls the synthesizer on that outline, with its
  check of the cache and of the claims, and returns a scene dictionary the synthesizer
  gives, tagged. Without the backend, and when the synthesizer raises or gives no scene
  dictionary, it calls \<^verbatim>\<open>generate_placeholder_scene\<close>, which stores its scene under the
  id whatever the claims are and leaves the claims as they are.
\<close>

theorem resolver_paths:
  "(\<forall>cached. generated_scenes c next_scene_id = Some cached \<longrightarrow>
      generate_next_scene lower gemini_available rnd_count rnd1 rnd2 others during response
        next_scene_id c = (Inr cached, c)) \<and>
   (generated_scenes c next_scene_id = None \<longrightarrow>
    resolver_outline rnd_count next_scene_id c = Inr outline \<longrightarrow>
      o_id outline = Some next_scene_id \<and>
      (gemini_available \<longrightarrow>
         generate_scene_from_outline_with_gemini lower [] others during response outline
             (cache_book_analysis c) c = (Inr (Scene_object sc), c') \<longrightarrow>
         generate_next_scene lower gemini_available rnd_count rnd1 rnd2 others during response
             next_scene_id c =
           (Inr (Scene_object (sc\<lparr>generated_with := Some ''Gemini''\<rparr>)),
            save_scene next_scene_id (Scene_object (sc\<lparr>generated_with := Some ''Gemini''\<rparr>)) c')) \<and>
      (gemini_available \<longrightarrow>
         generate_scene_from_outline_with_gemini lower [] others during response outline
             (cache_book_analysis c) c = (other, c') \<longrightarrow>
         (\<forall>s. other \<noteq> Inr (Scene_object s)) \<longrightarrow>
         generate_next_scene lower gemini_available rnd_count rnd1 rnd2 others during response
             next_scene_id c =
           generate_placeholder_scene rnd1 rnd2 next_scene_id (cache_book_analysis c) c') \<and>
      (\<not> gemini_available \<longrightarrow>
         generate_next_scene lower gemini_available rnd_count rnd1 rnd2 others during response
             next_scene_id c =
           generate_placeholder_scene rnd1 rnd2 next_scene_id (cache_book_analysis c) c)) \<and>
   (\<forall>b. \<exists>s. generate_placeholder_scene rnd1 rnd2 next_scene_id (Some b) c =
           (Inr (Scene_object s), save_scene next_scene_id (Scene_object s) c) \<and>
         in_progress_scenes (save_scene next_scene_id (Scene_object s) c) = in_progress_scenes c)"
proof (intro conjI allI impI)
  fix cached
  assume "generated_scenes c next_scene_id = Some cached"
  then show "generate_next_scene lower gemini_available rnd_count rnd1 rnd2 others during response
        next_scene_id c = (Inr cached, c)"
    by (simp add: generate_next_scene_def)
next
  assume "resolver_outline rnd_count next_scene_id c = Inr outline"
  then show "o_id outline = Some next_scene_id" by (rule resolver_outline_id)
next
  assume "generated_scenes c next_scene_id = None"
    "resolver_outline rnd_count next_scene_id c = Inr outline" gemini_available
    "generate_scene_from_outline_with_gemini lower [] others during response outline
       (cache_book_analysis c) c = (Inr (Scene_object sc), c')"
  then show "generate_next_scene lower gemini_available rnd_count rnd1 rnd2 others during response
             next_scene_id c =
           (Inr (Scene_object (sc\<lparr>generated_with := Some ''Gemini''\<rparr>)),
            save_scene next_scene_id (Scene_object (sc\<lparr>generated_with := Some ''Gemini''\<rparr>)) c')"
    by (simp add: generate_next_scene_def synthesize_or_placeholder_def)
next
  assume a: "generated_scenes c next_scene_id = None"
    "resolver_outline rnd_count next_scene_id c = Inr outline" gemini_available
    "generate_scene_from_outline_with_gemini lower [] others during response outline
       (cache_book_analysis c) c = (other, c')"
    "\<forall>s. other \<noteq> Inr (Scene_object s)"
  then show "generate_next_scene lower gemini_available rnd_count rnd1 rnd2 others during response
             next_scene_id c =
           generate_placeholder_scene rnd1 rnd2 next_scene_id (cache_book_analysis c) c'"
    by (simp add: generate_next_scene_def synthesize_or_placeholder_def Let_def
        split: sum.splits scene_json.splits)
next
  assume "generated_scenes c next_scene_id = None"
    "resolver_outline rnd_count next_scene_id c = Inr outline" "\<not> gemini_available"
  then show "generate_next_scene lower gemini_available rnd_count rnd1 rnd2 others during response
             next_scene_id c =
           generate_placeholder_scene rnd1 rnd2 next_scene_id (cache_book_analysis c) c"
    by (simp add: generate_next_scene_def synthesize_or_placeholder_def)
next
  fix b
  show "\<exists>s. generate_placeholder_scene rnd1 rnd2 next_scene_id (Some b) c =
           (Inr (Scene_object s), save_scene next_scene_id (Scene_object s) c) \<and>
         in_progress_scenes (save_scene next_scene_id (Scene_object s) c) = in_progress_scenes c"
    by (simp add: generate_placeholder_scene_def Let_def save_scene_def)
qed

definition holmes_cache :: story_cache where
  "holmes_cache = empty_cache\<lparr>cache_book_analysis := Some holmes_book\<rparr>"

definition generic_outline :: scene_outline where
  "generic_outline =
     \<lparr>o_id = Some ''scene_x'', o_description = Some ''Continuation of the adventure'',
      o_characters = [], o_setting = Some ''A location within the story world'',
      o_atmosphere = Some ''Consistent with the narrative'', dialogue_count = Some 8,
      connects_to = [''scene_next'', ''scene_alt'']\<rparr>"

lemma resolver_outline_unknown:
  "resolver_outline 7 ''scene_x'' holmes_cache = Inr generic_outline"
  by (simp add: resolver_outline_def holmes_cache_def empty_cache_def generic_outline_def)

lemma synthesizer_for_resolver:
  "generate_scene_from_outline_with_gemini lower [] (\<lambda>_. id) id (Json (Scene_object bare_placeholder))
     generic_outline (cache_book_analysis holmes_cache) holmes_cache =
   (Inr (Scene_object bare_placeholder),
    save_scene ''scene_x'' (Scene_object bare_placeholder) holmes_cache)"
  by (simp add: generate_scene_from_outline_with_gemini_def generate_def generic_outline_def
      holmes_cache_def empty_cache_def mark_in_progress_def save_scene_def
      remove_in_progress_def)

theorem resolver_paths_witness:
  "generated_scenes holmes_cache ''scene_x'' = None \<and>
   resolver_outline 7 ''scene_x'' holmes_cache = Inr generic_outline \<and>
   generate_scene_from_outline_with_gemini ascii_lower [] (\<lambda>_. id) id (Json (Scene_object bare_placeholder))
     generic_outline (cache_book_analysis holmes_cache) holmes_cache =
   (Inr (Scene_object bare_placeholder),
    save_scene ''scene_x'' (Scene_object bare_placeholder) holmes_cache) \<and>
   generate_next_scene ascii_lower True 7 ''1234'' ''5678'' (\<lambda>_. id) id (Json (Scene_object bare_placeholder))
     ''scene_x'' holmes_cache =
   (Inr (Scene_object (bare_placeholder\<lparr>generated_with := Some ''Gemini''\<rparr>)),
    save_scene ''scene_x'' (Scene_object (bare_placeholder\<lparr>generated_with := Some ''Gemini''\<rparr>))
      (save_scene ''scene_x'' (Scene_object bare_placeholder) holmes_cache))"
proof -
  have n: "generated_scenes holmes_cache ''scene_x'' = None"
    by (simp add: holmes_cache_def empty_cache_def)
  from resolver_paths [of holmes_cache "''scene_x''" ascii_lower True 7 "''1234''" "''5678''" "\<lambda>_. id" id
      "Json (Scene_object bare_placeholder)" generic_outline bare_placeholder
      "save_scene ''scene_x'' (Scene_object bare_placeholder) holmes_cache"]
    n resolver_outline_unknown synthesizer_for_resolver
  show ?thesis by simp
qed

section \<open>Scene Graph Index\<close>

text \<open>
  An edge is a pair: the target and the choice text in \<open>outgoing\<close>, the source and the
  choice text in \<open>incoming\<close>. Reading \<^verbatim>\<open>scene_graph[k]\<close> raises \<^verbatim>\<open>KeyError\<close> when \<open>k\<close> is
  no key.
\<close>

definition empty_node :: graph_node where
  "empty_node = \<lparr>outgoing = [], incoming = []\<rparr>"

definition ensure_node :: "string \<Rightarrow> (string \<rightharpoonup> graph_node) \<Rightarrow> (string \<rightharpoonup> graph_node)" where
  "ensure_node k g = (case g k of None \<Rightarrow> g(k \<mapsto> empty_node) | Some node \<Rightarrow> g)"

definition add_outgoing ::
  "string \<Rightarrow> string \<times> string \<Rightarrow> (string \<rightharpoonup> graph_node) \<Rightarrow> error + (string \<rightharpoonup> graph_node)" where
  "add_outgoing scene_id edge g =
     (case g scene_id of
        None \<Rightarrow> Inl KeyError
      | Some node \<Rightarrow>
          if fst edge \<in> set (map fst (outgoing node)) then Inr g
          else Inr (g(scene_id \<mapsto> node\<lparr>outgoing := outgoing node @ [edge]\<rparr>)))"

definition add_incoming ::
  "string \<Rightarrow> string \<times> string \<Rightarrow> (string \<rightharpoonup> graph_node) \<Rightarrow> error + (string \<rightharpoonup> graph_node)" where
  "add_incoming target edge g =
     (case g target of
        None \<Rightarrow> Inl KeyError
      | Some node \<Rightarrow>
          if fst edge \<in> set (map fst (incoming node)) then Inr g
          else Inr (g(target \<mapsto> node\<lparr>incoming := incoming node @ [edge]\<rparr>)))"

text \<open>The body of the loop over the choices, for a choice of the scene \<open>scene_id\<close>.\<close>

definition add_choice ::
  "string \<Rightarrow> choice \<Rightarrow> (string \<rightharpoonup> graph_node) \<Rightarrow> error + (string \<rightharpoonup> graph_node)" where
  "add_choice scene_id c g =
     (case nextScene c of
        None \<Rightarrow> Inr g
      | Some n \<Rightarrow>
          if n = ''exit'' then Inr g
          else (case add_outgoing scene_id (n, c_text c) g of
                  Inl e \<Rightarrow> Inl e
                | Inr g1 \<Rightarrow> add_incoming n (scene_id, c_text c) (ensure_node n g1)))"

fun add_choices ::
  "string \<Rightarrow> choice list \<Rightarrow> (string \<rightharpoonup> graph_node) \<Rightarrow> error + (string \<rightharpoonup> graph_node)" where
  "add_choices scene_id [] g = Inr g"
| "add_choices scene_id (c # cs) g =
     (case add_choice scene_id c g of
        Inl e \<Rightarrow> Inl e
      | Inr g' \<Rightarrow> add_choices scene_id cs g')"

text \<open>
  The body of the loop over the scenes: the scene is stored in the generated scenes,
  its node is created if missing, and its choices are walked through, dialogue entry
  by dialogue entry.
\<close>

definition update_scene :: "scene \<Rightarrow> story_cache \<Rightarrow> error + story_cache" where
  "update_scene sc c =
     (let c1 = save_scene (sid sc) (Scene_object sc) c
      in case add_choices (sid sc) (scene_choices sc) (ensure_node (sid sc) (scene_graph c1)) of
           Inl e \<Rightarrow> Inl e
         | Inr g \<Rightarrow> Inr (c1\<lparr>scene_graph := g\<rparr>))"

fun update_scenes :: "scene list \<Rightarrow> story_cache \<Rightarrow> error + story_cache" where
  "update_scenes [] c = Inr c"
| "update_scenes (sc # scs) c =
     (case update_scene sc c of
        Inl e \<Rightarrow> Inl e
      | Inr c' \<Rightarrow> update_scenes scs c')"

definition update_scene_graph :: "script \<Rightarrow> story_cache \<Rightarrow> error + story_cache" where
  "update_scene_graph script_data c = update_scenes (scenes script_data) c"

subsection \<open>Merging\<close>

definition extends :: "(string \<rightharpoonup> graph_node) \<Rightarrow> (string \<rightharpoonup> graph_node) \<Rightarrow> bool" where
  "extends g g' \<longleftrightarrow>
     (\<forall>k node. g k = Some node \<longrightarrow>
        (\<exists>node'. g' k = Some node' \<and> prefix (outgoing node) (outgoing node') \<and>
           prefix (incoming node) (incoming node')))"

definition graph_deduplicated :: "(string \<rightharpoonup> graph_node) \<Rightarrow> bool" where
  "graph_deduplicated g \<longleftrightarrow>
     (\<forall>k node. g k = Some node \<longrightarrow>
        distinct (map fst (outgoing node)) \<and> distinct (map fst (incoming node)))"

definition has_edge :: "(string \<rightharpoonup> graph_node) \<Rightarrow> string \<Rightarrow> string \<Rightarrow> bool" where
  "has_edge g s n \<longleftrightarrow>
     (\<exists>node. g s = Some node \<and> n \<in> set (map fst (outgoing node))) \<and>
     (\<exists>node. g n = Some node \<and> s \<in> set (map fst (incoming node)))"

lemma extends_refl: "extends g g"
  by (simp add: extends_def)

lemma extends_trans: "extends g g' \<Longrightarrow> extends g' g'' \<Longrightarrow> extends g g''"
  unfolding extends_def by (meson prefix_order.trans)

lemma extends_dom: "extends g g' \<Longrightarrow> k \<in> dom g \<Longrightarrow> k \<in> dom g'"
  unfolding extends_def by auto

lemma extends_has_edge:
  assumes "extends g g'" "has_edge g s n"
  shows "has_edge g' s n"
proof -
  from assms(2) obtain a b where a: "g s = Some a" "n \<in> set (map fst (outgoing a))"
    and b: "g n = Some b" "s \<in> set (map fst (incoming b))"
    unfolding has_edge_def by blast
  from assms(1) a(1) obtain a' where a': "g' s = Some a'" "prefix (outgoing a) (outgoing a')"
    unfolding extends_def by blast
  from assms(1) b(1) obtain b' where b': "g' n = Some b'" "prefix (incoming b) (incoming b')"
    unfolding extends_def by blast
  from a'(2) a(2) have "n \<in> set (map fst (outgoing a'))"
    by (auto simp: prefix_def)
  moreover from b'(2) b(2) have "s \<in> set (map fst (incoming b'))"
    by (auto simp: prefix_def)
  ultimately show ?thesis using a'(1) b'(1) unfolding has_edge_def by blast
qed

lemma ensure_node_extends: "extends g (ensure_node k g)"
  by (auto simp: extends_def ensure_node_def split: option.splits)

lemma ensure_node_dom: "k \<in> dom (ensure_node k g)"
  by (auto simp: ensure_node_def split: option.splits)

lemma ensure_node_present: "k \<in> dom g \<Longrightarrow> ensure_node k g = g"
  by (auto simp: ensure_node_def)

lemma ensure_node_deduplicated:
  "graph_deduplicated g \<Longrightarrow> graph_deduplicated (ensure_node k g)"
  by (auto simp: graph_deduplicated_def ensure_node_def empty_node_def split: option.splits)

lemma add_outgoing_result:
  assumes "s \<in> dom g"
  shows "\<exists>g'. add_outgoing s (n, t) g = Inr g' \<and> extends g g' \<and>
           (\<exists>node. g' s = Some node \<and> n \<in> set (map fst (outgoing node))) \<and>
           (graph_deduplicated g \<longrightarrow> graph_deduplicated g')"
proof -
  from assms obtain node where node: "g s = Some node" by auto
  show ?thesis
  proof (cases "n \<in> set (map fst (outgoing node))")
    case True
    with node show ?thesis by (auto simp: add_outgoing_def extends_refl)
  next
    case False
    let ?g' = "g(s \<mapsto> node\<lparr>outgoing := outgoing node @ [(n, t)]\<rparr>)"
    have "extends g ?g'" using node by (auto simp: extends_def)
    moreover have "graph_deduplicated g \<longrightarrow> graph_deduplicated ?g'"
      using node False by (auto simp: graph_deduplicated_def)
    ultimately show ?thesis using node False by (auto simp: add_outgoing_def)
  qed
qed

lemma add_incoming_result:
  assumes "n \<in> dom g"
  shows "\<exists>g'. add_incoming n (s, t) g = Inr g' \<and> extends g g' \<and>
           (\<exists>node. g' n = Some node \<and> s \<in> set (map fst (incoming node))) \<and>
           (graph_deduplicated g \<longrightarrow> graph_deduplicated g')"
proof -
  from assms obtain node where node: "g n = Some node" by auto
  show ?thesis
  proof (cases "s \<in> set (map fst (incoming node))")
    case True
    with node show ?thesis by (auto simp: add_incoming_def extends_refl)
  next
    case False
    let ?g' = "g(n \<mapsto> node\<lparr>incoming := incoming node @ [(s, t)]\<rparr>)"
    have "extends g ?g'" using node by (auto simp: extends_def)
    moreover have "graph_deduplicated g \<longrightarrow> graph_deduplicated ?g'"
      using node False by (auto simp: graph_deduplicated_def)
    ultimately show ?thesis using node False by (auto simp: add_incoming_def)
  qed
qed


definition edge_of :: "choice \<Rightarrow> string option" where
  "edge_of c = (case nextScene c of None \<Rightarrow> None | Some n \<Rightarrow> if n = ''exit'' then None else Some n)"

lemma add_choice_result:
  assumes "s \<in> dom g"
  shows "\<exists>g'. add_choice s c g = Inr g' \<and> extends g g' \<and>
           (\<forall>n. edge_of c = Some n \<longrightarrow> has_edge g' s n) \<and>
           (graph_deduplicated g \<longrightarrow> graph_deduplicated g')"
proof (cases "edge_of c")
  case None
  then have "add_choice s c g = Inr g"
    by (auto simp: add_choice_def edge_of_def split: option.splits if_splits)
  with None show ?thesis by (simp add: extends_refl)
next
  case (Some n)
  then have n: "nextScene c = Some n" "n \<noteq> ''exit''"
    by (auto simp: edge_of_def split: option.splits if_splits)
  from add_outgoing_result [OF assms, of n "c_text c"]
  obtain g1 where g1: "add_outgoing s (n, c_text c) g = Inr g1" "extends g g1"
    "\<exists>node. g1 s = Some node \<and> n \<in> set (map fst (outgoing node))"
    "graph_deduplicated g \<longrightarrow> graph_deduplicated g1"
    by blast
  let ?g2 = "ensure_node n g1"
  from add_incoming_result [OF ensure_node_dom [of n g1], of s "c_text c"]
  obtain g3 where g3: "add_incoming n (s, c_text c) ?g2 = Inr g3" "extends ?g2 g3"
    "\<exists>node. g3 n = Some node \<and> s \<in> set (map fst (incoming node))"
    "graph_deduplicated ?g2 \<longrightarrow> graph_deduplicated g3"
    by blast
  have e13: "extends g1 g3"
    using ensure_node_extends g3(2) by (rule extends_trans)
  from g1(3) obtain a where a: "g1 s = Some a" "n \<in> set (map fst (outgoing a))" by blast
  from e13 a(1) obtain a' where a': "g3 s = Some a'" "prefix (outgoing a) (outgoing a')"
    unfolding extends_def by blast
  from a'(2) a(2) have "n \<in> set (map fst (outgoing a'))" by (auto simp: prefix_def)
  with a'(1) g3(3) have edge: "has_edge g3 s n" unfolding has_edge_def by blast
  have "add_choice s c g = Inr g3"
    using n g1(1) g3(1) by (simp add: add_choice_def)
  moreover have "extends g g3" using g1(2) e13 by (rule extends_trans)
  moreover have "graph_deduplicated g \<longrightarrow> graph_deduplicated g3"
    using g1(4) g3(4) ensure_node_deduplicated by blast
  ultimately show ?thesis using Some edge by simp
qed

lemma add_choice_present:
  assumes "s \<in> dom g" "\<forall>n. edge_of c = Some n \<longrightarrow> has_edge g s n"
  shows "add_choice s c g = Inr g"
proof (cases "edge_of c")
  case None
  then show ?thesis
    by (auto simp: add_choice_def edge_of_def split: option.splits if_splits)
next
  case (Some n)
  then have n: "nextScene c = Some n" "n \<noteq> ''exit''"
    by (auto simp: edge_of_def split: option.splits if_splits)
  from assms(2) Some have "has_edge g s n" by blast
  then obtain a b where a: "g s = Some a" "n \<in> set (map fst (outgoing a))"
    and b: "g n = Some b" "s \<in> set (map fst (incoming b))"
    unfolding has_edge_def by blast
  from a have 1: "add_outgoing s (n, c_text c) g = Inr g" by (simp add: add_outgoing_def)
  from b(1) have 2: "ensure_node n g = g" by (simp add: ensure_node_def)
  from b have 3: "add_incoming n (s, c_text c) g = Inr g" by (simp add: add_incoming_def)
  from n 1 2 3 show ?thesis by (simp add: add_choice_def)
qed

lemma add_choices_result:
  assumes "s \<in> dom g"
  shows "\<exists>g'. add_choices s cs g = Inr g' \<and> extends g g' \<and>
           (\<forall>c \<in> set cs. \<forall>n. edge_of c = Some n \<longrightarrow> has_edge g' s n) \<and>
           (graph_deduplicated g \<longrightarrow> graph_deduplicated g')"
  using assms
proof (induction cs arbitrary: g)
  case Nil
  show ?case by (simp add: extends_refl)
next
  case (Cons c cs)
  from add_choice_result [OF Cons.prems, of c]
  obtain g1 where g1: "add_choice s c g = Inr g1" "extends g g1"
    "\<forall>n. edge_of c = Some n \<longrightarrow> has_edge g1 s n"
    "graph_deduplicated g \<longrightarrow> graph_deduplicated g1"
    by blast
  from extends_dom [OF g1(2) Cons.prems] have "s \<in> dom g1" .
  from Cons.IH [OF this]
  obtain g2 where g2: "add_choices s cs g1 = Inr g2" "extends g1 g2"
    "\<forall>c \<in> set cs. \<forall>n. edge_of c = Some n \<longrightarrow> has_edge g2 s n"
    "graph_deduplicated g1 \<longrightarrow> graph_deduplicated g2"
    by blast
  have "add_choices s (c # cs) g = Inr g2" using g1(1) g2(1) by simp
  moreover have "extends g g2" using g1(2) g2(2) by (rule extends_trans)
  moreover have "\<forall>c' \<in> set (c # cs). \<forall>n. edge_of c' = Some n \<longrightarrow> has_edge g2 s n"
    using g1(3) g2(3) extends_has_edge [OF g2(2)] by auto
  moreover have "graph_deduplicated g \<longrightarrow> graph_deduplicated g2"
    using g1(4) g2(4) by blast
  ultimately show ?case by blast
qed

lemma add_choices_present:
  assumes "s \<in> dom g" "\<forall>c \<in> set cs. \<forall>n. edge_of c = Some n \<longrightarrow> has_edge g s n"
  shows "add_choices s cs g = Inr g"
  using assms by (induction cs) (simp_all add: add_choice_present)

text \<open>
  \<open>indexed g scs\<close>: every scene of \<open>scs\<close> has its node in \<open>g\<close> and every choice of it that
  goes to a scene has its two edges there.
\<close>

definition indexed :: "(string \<rightharpoonup> graph_node) \<Rightarrow> scene list \<Rightarrow> bool" where
  "indexed g scs \<longleftrightarrow>
     (\<forall>sc \<in> set scs. sid sc \<in> dom g \<and>
        (\<forall>c \<in> set (scene_choices sc). \<forall>n. edge_of c = Some n \<longrightarrow> has_edge g (sid sc) n))"

lemma indexed_extends: "extends g g' \<Longrightarrow> indexed g scs \<Longrightarrow> indexed g' scs"
  unfolding indexed_def using extends_dom extends_has_edge by blast

text \<open>The scenes stored by a run over \<open>scs\<close>: the last scene of each id wins.\<close>

definition stored :: "scene list \<Rightarrow> (string \<rightharpoonup> scene_json) \<Rightarrow> (string \<rightharpoonup> scene_json)" where
  "stored scs m = fold (\<lambda>sc m. m(sid sc \<mapsto> Scene_object sc)) scs m"

lemma stored_map_add:
  "stored scs m = m ++ map_of (rev (map (\<lambda>sc. (sid sc, Scene_object sc)) scs))"
  unfolding stored_def
proof (induction scs arbitrary: m)
  case Nil
  show ?case by simp
next
  case (Cons sc scs)
  let ?rest = "map_of (rev (map (\<lambda>sc. (sid sc, Scene_object sc)) scs))"
  have "m ++ map_of (rev (map (\<lambda>sc. (sid sc, Scene_object sc)) (sc # scs)))
      = m ++ (map_of [(sid sc, Scene_object sc)] ++ ?rest)"
    by (simp only: list.map rev.simps map_of_append)
  also have "\<dots> = (m ++ map_of [(sid sc, Scene_object sc)]) ++ ?rest"
    by (simp only: map_add_assoc)
  also have "m ++ map_of [(sid sc, Scene_object sc)] = m(sid sc \<mapsto> Scene_object sc)"
    by simp
  finally have "m(sid sc \<mapsto> Scene_object sc) ++ ?rest
      = m ++ map_of (rev (map (\<lambda>sc. (sid sc, Scene_object sc)) (sc # scs)))"
    by (rule sym)
  moreover have "fold (\<lambda>sc m. m(sid sc \<mapsto> Scene_object sc)) (sc # scs) m =
      fold (\<lambda>sc m. m(sid sc \<mapsto> Scene_object sc)) scs (m(sid sc \<mapsto> Scene_object sc))"
    by (simp only: fold_simps)
  ultimately show ?case using Cons.IH [of "m(sid sc \<mapsto> Scene_object sc)"]
    by (simp only:)
qed

lemma stored_idem: "stored scs (stored scs m) = stored scs m"
proof -
  have "(m ++ a) ++ a = m ++ a" for a :: "string \<rightharpoonup> scene_json"
    by (simp add: fun_eq_iff map_add_def split: option.splits)
  then show ?thesis by (simp only: stored_map_add)
qed

lemma update_scenes_result:
  "\<exists>g'. update_scenes scs c =
           Inr (c\<lparr>generated_scenes := stored scs (generated_scenes c), scene_graph := g'\<rparr>) \<and>
         extends (scene_graph c) g' \<and> indexed g' scs \<and>
         (graph_deduplicated (scene_graph c) \<longrightarrow> graph_deduplicated g')"
proof (induction scs arbitrary: c)
  case Nil
  have "c = c\<lparr>scene_graph := scene_graph c\<rparr>" by simp
  then show ?case
    by (intro exI [of _ "scene_graph c"]) (simp add: stored_def extends_refl indexed_def)
next
  case (Cons sc scs)
  let ?g0 = "ensure_node (sid sc) (scene_graph c)"
  from add_choices_result [OF ensure_node_dom [of "sid sc" "scene_graph c"], of "scene_choices sc"]
  obtain g1 where g1: "add_choices (sid sc) (scene_choices sc) ?g0 = Inr g1" "extends ?g0 g1"
    "\<forall>c' \<in> set (scene_choices sc). \<forall>n. edge_of c' = Some n \<longrightarrow> has_edge g1 (sid sc) n"
    "graph_deduplicated ?g0 \<longrightarrow> graph_deduplicated g1"
    by blast
  let ?c1 = "c\<lparr>generated_scenes := (generated_scenes c)(sid sc \<mapsto> Scene_object sc),
               scene_graph := g1\<rparr>"
  have us: "update_scene sc c = Inr ?c1"
    using g1(1) by (simp add: update_scene_def save_scene_def)
  have e01: "extends (scene_graph c) g1"
    using ensure_node_extends g1(2) by (rule extends_trans)
  have "sid sc \<in> dom g1" using extends_dom [OF g1(2) ensure_node_dom] .
  with g1(3) have i1: "indexed g1 [sc]" by (simp add: indexed_def)
  from Cons.IH [of ?c1]
  obtain g2 where g2': "update_scenes scs ?c1 =
      Inr (?c1\<lparr>generated_scenes := stored scs (generated_scenes ?c1), scene_graph := g2\<rparr>)"
    "extends (scene_graph ?c1) g2" "indexed g2 scs"
    "graph_deduplicated (scene_graph ?c1) \<longrightarrow> graph_deduplicated g2"
    by blast
  have sel: "scene_graph ?c1 = g1"
    "generated_scenes ?c1 = (generated_scenes c)(sid sc \<mapsto> Scene_object sc)"
    by simp_all
  note g2 = g2'(1) g2'(2) [unfolded sel] g2'(3) g2'(4) [unfolded sel]
  have st: "stored (sc # scs) (generated_scenes c) = stored scs (generated_scenes ?c1)"
    unfolding sel by (simp only: stored_def fold_simps)
  have "?c1\<lparr>generated_scenes := stored scs (generated_scenes ?c1), scene_graph := g2\<rparr> =
      c\<lparr>generated_scenes := stored (sc # scs) (generated_scenes c), scene_graph := g2\<rparr>"
    unfolding st by simp
  with us g2(1) have "update_scenes (sc # scs) c =
      Inr (c\<lparr>generated_scenes := stored (sc # scs) (generated_scenes c), scene_graph := g2\<rparr>)"
    by (simp only: update_scenes.simps sum.case)
  moreover have "extends (scene_graph c) g2" using e01 g2(2) by (rule extends_trans)
  moreover have "indexed g2 (sc # scs)"
    using indexed_extends [OF g2(2) i1] g2(3) by (simp add: indexed_def)
  moreover have "graph_deduplicated (scene_graph c) \<longrightarrow> graph_deduplicated g2"
    using g1(4) g2(4) ensure_node_deduplicated by blast
  ultimately show ?case by blast
qed

lemma update_scenes_indexed:
  assumes "indexed (scene_graph c) all"  "set scs \<subseteq> set all"
  shows "update_scenes scs c = Inr (c\<lparr>generated_scenes := stored scs (generated_scenes c)\<rparr>)"
  using assms
proof (induction scs arbitrary: c)
  case Nil
  show ?case by (simp add: stored_def)
next
  case (Cons sc scs)
  from Cons.prems have sc: "sid sc \<in> dom (scene_graph c)"
    "\<forall>c' \<in> set (scene_choices sc). \<forall>n. edge_of c' = Some n \<longrightarrow> has_edge (scene_graph c) (sid sc) n"
    by (auto simp: indexed_def)
  let ?c1 = "c\<lparr>generated_scenes := (generated_scenes c)(sid sc \<mapsto> Scene_object sc)\<rparr>"
  have "update_scene sc c = Inr ?c1"
    using add_choices_present [OF sc] ensure_node_present [OF sc(1)]
    by (simp add: update_scene_def save_scene_def)
  moreover have "update_scenes scs ?c1 =
      Inr (?c1\<lparr>generated_scenes := stored scs (generated_scenes ?c1)\<rparr>)"
    using Cons.prems by (intro Cons.IH) auto
  moreover have "?c1\<lparr>generated_scenes := stored scs (generated_scenes ?c1)\<rparr> =
      c\<lparr>generated_scenes := stored (sc # scs) (generated_scenes c)\<rparr>"
    by (simp add: stored_def del: fun_upd_apply)
  ultimately show ?case by (simp only: update_scenes.simps sum.case)
qed


lemma update_scene_graph_twice:
  "\<exists>c1. update_scene_graph script_data c = Inr c1 \<and>
         update_scene_graph script_data c1 = Inr c1 \<and>
         extends (scene_graph c) (scene_graph c1) \<and>
         (graph_deduplicated (scene_graph c) \<longrightarrow> graph_deduplicated (scene_graph c1))"
proof -
  let ?scs = "scenes script_data"
  from update_scenes_result [of ?scs c]
  obtain g' where g': "update_scenes ?scs c =
      Inr (c\<lparr>generated_scenes := stored ?scs (generated_scenes c), scene_graph := g'\<rparr>)"
    "extends (scene_graph c) g'" "indexed g' ?scs"
    "graph_deduplicated (scene_graph c) \<longrightarrow> graph_deduplicated g'"
    by blast
  let ?c1 = "c\<lparr>generated_scenes := stored ?scs (generated_scenes c), scene_graph := g'\<rparr>"
  have sel: "scene_graph ?c1 = g'" "generated_scenes ?c1 = stored ?scs (generated_scenes c)"
    by simp_all
  have "indexed (scene_graph ?c1) ?scs" using g'(3) by (simp only: sel)
  from update_scenes_indexed [OF this subset_refl]
  have "update_scenes ?scs ?c1 = Inr (?c1\<lparr>generated_scenes := stored ?scs (generated_scenes ?c1)\<rparr>)" .
  moreover have "?c1\<lparr>generated_scenes := stored ?scs (generated_scenes ?c1)\<rparr> = ?c1"
    unfolding sel stored_idem by simp
  ultimately have again: "update_scenes ?scs ?c1 = Inr ?c1" by (simp only:)
  show ?thesis
    apply (rule exI [of _ ?c1])
    unfolding update_scene_graph_def sel
    using g'(1) again g'(2) g'(4) by (intro conjI)
qed

text \<open>
  C7. \<^verbatim>\<open>update_scene_graph\<close> raises nothing, and a second call on the same script
  right after the first changes nothing, neither in the graph nor in the generated
  scenes. A node that was in the graph before the call is still there after it, with
  the edges it had as the first of its edges, in their order and with their texts: new
  edges are appended. And when no node of the graph had two outgoing edges to one
  target or two incoming edges from one source, none has after the call.
\<close>

theorem update_scene_graph_idempotent_merging:
  "\<exists>c1. update_scene_graph script_data c = Inr c1 \<and>
         update_scene_graph script_data c1 = Inr c1 \<and>
         (\<forall>k node. scene_graph c k = Some node \<longrightarrow>
            (\<exists>node'. scene_graph c1 k = Some node' \<and>
               prefix (outgoing node) (outgoing node') \<and>
               prefix (incoming node) (incoming node'))) \<and>
         (graph_deduplicated (scene_graph c) \<longrightarrow> graph_deduplicated (scene_graph c1))"
  using update_scene_graph_twice [of script_data c] unfolding extends_def .

definition old_node :: graph_node where
  "old_node = \<lparr>outgoing = [(''scene_9'', ''old'')], incoming = []\<rparr>"

definition indexed_cache :: story_cache where
  "indexed_cache = empty_cache\<lparr>scene_graph := [''scene_1'' \<mapsto> old_node]\<rparr>"

theorem update_scene_graph_idempotent_merging_witness:
  "scene_graph indexed_cache ''scene_1'' = Some old_node \<and>
   graph_deduplicated (scene_graph indexed_cache) \<and>
   (\<exists>c1. update_scene_graph example_script indexed_cache = Inr c1 \<and>
      update_scene_graph example_script c1 = Inr c1 \<and>
      (\<exists>node'. scene_graph c1 ''scene_1'' = Some node' \<and>
         prefix (outgoing old_node) (outgoing node') \<and>
         prefix (incoming old_node) (incoming node')) \<and>
      graph_deduplicated (scene_graph c1))"
proof -
  have n: "scene_graph indexed_cache ''scene_1'' = Some old_node"
    by (simp add: indexed_cache_def)
  have d: "graph_deduplicated (scene_graph indexed_cache)"
    by (simp add: graph_deduplicated_def indexed_cache_def old_node_def)
  from update_scene_graph_idempotent_merging [of example_script indexed_cache]
  obtain c1 where c1: "update_scene_graph example_script indexed_cache = Inr c1"
    "update_scene_graph example_script c1 = Inr c1"
    "\<forall>k node. scene_graph indexed_cache k = Some node \<longrightarrow>
       (\<exists>node'. scene_graph c1 k = Some node' \<and>
          prefix (outgoing node) (outgoing node') \<and>
          prefix (incoming node) (incoming node'))"
    "graph_deduplicated (scene_graph indexed_cache) \<longrightarrow> graph_deduplicated (scene_graph c1)"
    by blast
  from c1(3) n have "\<exists>node'. scene_graph c1 ''scene_1'' = Some node' \<and>
         prefix (outgoing old_node) (outgoing node') \<and>
         prefix (incoming old_node) (incoming node')"
    by blast
  with n d c1(1,2,4) show ?thesis by blast
qed

end
